theory Spec2Isabelle
  imports Main "HOL-Library.Sublist" "HOL-Library.Word"
begin

section \<open>Buffers and the signature search\<close>

text \<open>
  A Node \<^verbatim>\<open>Buffer\<close> is a sequence of bytes. The search and the frame loop only compare
  elements for equality, so they are written over lists of any element type; the camera
  itself runs them on bytes (\<open>8 word\<close>).
\<close>

type_synonym byte = "8 word"

text \<open>
  \<^verbatim>\<open>buf.indexOf(value, byteOffset)\<close> with a Buffer \<open>value\<close> and a non-negative
  \<open>byteOffset\<close>: the least index at or after \<open>byteOffset\<close> where \<open>value\<close> occurs in
  \<open>buf\<close>, and \<open>-1\<close> when there is none (here \<open>None\<close>). For an empty \<open>value\<close> Node
  returns \<open>byteOffset\<close>, capped at the length of \<open>buf\<close>. \<open>search v xs i\<close> scans the
  suffix \<open>xs\<close> of the buffer that starts at index \<open>i\<close>.
\<close>

fun search :: "'a list \<Rightarrow> 'a list \<Rightarrow> nat \<Rightarrow> nat option" where
  "search v [] i = (if v = [] then Some i else None)"
| "search v (x # xs) i = (if prefix v (x # xs) then Some i else search v xs (Suc i))"

definition indexOf :: "'a list \<Rightarrow> 'a list \<Rightarrow> nat \<Rightarrow> nat option" where
  "indexOf buf v byteOffset = search v (drop byteOffset buf) (min byteOffset (length buf))"

section \<open>The frame extraction loop\<close>

text \<open>
  The \<^verbatim>\<open>while (true)\<close> loop of the stdout data handler of \<^verbatim>\<open>startCapture\<close>.
  \<open>emitted\<close> collects, in order, the buffers passed to \<^verbatim>\<open>this.emit('frame', ...)\<close>; the
  result is that list and the value of \<^verbatim>\<open>stdoutBuffer\<close> when the loop breaks.
  \<^verbatim>\<open>slice(i)\<close> is \<open>drop i\<close> and \<^verbatim>\<open>slice(0, j)\<close> is \<open>take j\<close>. The loop has no bound of
  its own: \<open>None\<close> is a loop that never breaks.
\<close>

partial_function (option) extractFrames ::
  "'a list \<Rightarrow> 'a list \<Rightarrow> 'a list list \<Rightarrow> ('a list list \<times> 'a list) option" where
  "extractFrames jpegSig stdoutBuffer emitted =
     (case indexOf stdoutBuffer jpegSig 0 of
        None \<Rightarrow> Some (emitted, stdoutBuffer)
      | Some signatureIndex \<Rightarrow>
          (let buf1 = (if signatureIndex > 0 then drop signatureIndex stdoutBuffer
                       else stdoutBuffer)
           in case indexOf buf1 jpegSig (length jpegSig) of
                None \<Rightarrow> Some (emitted, buf1)
              | Some nextSignatureIndex \<Rightarrow>
                  extractFrames jpegSig (drop nextSignatureIndex buf1)
                    (emitted @ [take nextSignatureIndex buf1])))"

declare extractFrames.simps [code]

datatype codec = H264 | MJPEG

text \<open>
  The part of the data handler after the fan-out: nothing in plain mode, otherwise the
  chunk is appended to \<^verbatim>\<open>stdoutBuffer\<close> and the loop runs. The result is the frames
  emitted by this pass and the buffer kept for the next one.
\<close>

definition handleChunk ::
  "codec \<Rightarrow> 'a list \<Rightarrow> 'a list \<Rightarrow> 'a list \<Rightarrow> ('a list list \<times> 'a list) option" where
  "handleChunk c jpegSig stdoutBuffer data =
     (if c \<noteq> MJPEG then Some ([], stdoutBuffer)
      else extractFrames jpegSig (stdoutBuffer @ data) [])"

text \<open>
  A sequence of chunks delivered to one MJPEG handler, starting from the frames emitted
  so far and the current buffer.
\<close>

fun feed ::
  "'a list \<Rightarrow> 'a list list \<Rightarrow> 'a list list \<times> 'a list \<Rightarrow> ('a list list \<times> 'a list) option" where
  "feed jpegSig [] st = Some st"
| "feed jpegSig (data # rest) (emitted, stdoutBuffer) =
     (case handleChunk MJPEG jpegSig stdoutBuffer data of
        None \<Rightarrow> None
      | Some (frames, buf) \<Rightarrow> feed jpegSig rest (emitted @ frames, buf))"

definition jpegSignature :: "byte list" where
  "jpegSignature = [0xff, 0xd8, 0xff, 0xdb, 0x00, 0x84, 0x00]"

section \<open>Occurrences of the signature in a byte stream\<close>

text \<open>
  The notions the properties of the demultiplexer are stated with: the offsets at which
  the signature occurs in a stream, in increasing order; the slices of the stream from
  each offset of a list to the next one; the part of the stream from the last occurrence
  on (all of it when there is none); and a signature that cannot overlap itself (no
  proper non-empty suffix of it is also a prefix of it).
\<close>

definition occurrences :: "'a list \<Rightarrow> 'a list \<Rightarrow> nat list" where
  "occurrences v buf = filter (\<lambda>i. prefix v (drop i buf)) [0..<length buf]"

fun slices :: "'a list \<Rightarrow> nat list \<Rightarrow> 'a list list" where
  "slices buf (p # q # ps) = take (q - p) (drop p buf) # slices buf (q # ps)"
| "slices buf ps = []"

definition retained :: "'a list \<Rightarrow> 'a list \<Rightarrow> 'a list" where
  "retained v buf =
     (if occurrences v buf = [] then buf else drop (last (occurrences v buf)) buf)"

definition unbordered :: "'a list \<Rightarrow> bool" where
  "unbordered v = (v \<noteq> [] \<and> (\<forall>k \<in> set [1..<length v]. \<not> prefix (drop k v) v))"

section \<open>The stream camera\<close>

datatype error =
    UnknownSystemModel string
  | CaptureStartFailed
  | CodecNotMJPEG
  | TypeError

text \<open>
  \<^verbatim>\<open>getJpegSignature\<close>, as a function of \<^verbatim>\<open>systemInfo.model\<close>: the \<^verbatim>\<open>switch\<close> returns
  the one signature for the models it lists and throws for every other model.
\<close>

definition getJpegSignature :: "string \<Rightarrow> error + byte list" where
  "getJpegSignature model =
     (if model \<in> set [''BCM2711'', ''BCM2835 - Pi 3 Model B'', ''BCM2835 - Pi 3 Model B+'',
                      ''BCM2835 - Pi 4 Model B'', ''BCM2835 - Pi Zero'', ''BCM2835 - Pi Zero W'',
                      ''Docker Container'']
      then Inr jpegSignature
      else Inl (UnknownSystemModel model))"

text \<open>
  The promise returned by a call of \<^verbatim>\<open>startCapture\<close>. Only the first \<^verbatim>\<open>resolve\<close> or
  \<^verbatim>\<open>reject\<close> of a promise has an effect.
\<close>

datatype promise = Pending | Resolved | Rejected error

definition settle :: "promise \<Rightarrow> promise \<Rightarrow> promise" where
  "settle outcome p = (if p = Pending then outcome else p)"

text \<open>What is pushed into a \<^verbatim>\<open>stream.Readable\<close>: a chunk, or \<^verbatim>\<open>null\<close> for the end of the stream.\<close>

datatype item = Chunk "byte list" | EOF

text \<open>
  A spawned \<^verbatim>\<open>raspivid\<close> process together with the call of \<^verbatim>\<open>startCapture\<close> that spawned
  it: whether \<^verbatim>\<open>kill()\<close> was called on it, the promise of the call, the two \<^verbatim>\<open>once\<close>
  listeners the call registers on it (\<^verbatim>\<open>'error'\<close> rejects, the first stdout \<^verbatim>\<open>'data'\<close>
  resolves), whether the call is still suspended at \<^verbatim>\<open>await getJpegSignature()\<close>, the
  \<^verbatim>\<open>stdout.on('data', ...)\<close> handlers registered on it, each with the \<^verbatim>\<open>jpegSignature\<close>
  and the \<^verbatim>\<open>stdoutBuffer\<close> of its closure, and how many times the listeners that follow
  the data handler in \<^verbatim>\<open>startCapture\<close> (stdout \<^verbatim>\<open>'error'\<close>, stderr \<^verbatim>\<open>'data'\<close> and
  \<^verbatim>\<open>'error'\<close>, stdout \<^verbatim>\<open>'close'\<close>) were registered on it.
\<close>

record process =
  killed :: bool
  startPromise :: promise
  errorOnce :: bool
  dataOnce :: bool
  awaitingSignature :: bool
  handlers :: "(byte list \<times> byte list) list"
  forwarders :: nat

text \<open>
  A \<^verbatim>\<open>StreamCamera\<close> and what it acts on. \<open>codec\<close>, \<open>childProcess\<close> and \<open>streams\<close> are
  its fields (a process and a Readable are named by their index in \<open>processes\<close> and
  \<open>readables\<close>). \<open>processes\<close> holds every process spawned so far, \<open>readables\<close> what was
  pushed into every Readable created so far, \<open>frames\<close> the \<^verbatim>\<open>'frame'\<close> events emitted so
  far, \<open>frameOnce\<close> the \<^verbatim>\<open>once('frame', ...)\<close> listeners of pending \<^verbatim>\<open>takeImage\<close> calls and
  \<open>images\<close> the promises of all \<^verbatim>\<open>takeImage\<close> calls (\<open>None\<close> while pending).
\<close>

record camera =
  codec :: codec
  childProcess :: "nat option"
  streams :: "nat list"
  processes :: "process list"
  readables :: "item list list"
  frames :: "byte list list"
  frameOnce :: "nat list"
  images :: "byte list option list"

definition newCamera :: "codec \<Rightarrow> camera" where
  "newCamera c =
     \<lparr>codec = c, childProcess = None, streams = [], processes = [], readables = [],
      frames = [], frameOnce = [], images = []\<rparr>"

text \<open>
  \<^verbatim>\<open>startCapture\<close> up to its \<^verbatim>\<open>await\<close>: the process is spawned and stored in
  \<^verbatim>\<open>this.childProcess\<close>, and the two \<^verbatim>\<open>once\<close> listeners are registered. Nothing is tested
  before the spawn.
\<close>

definition startCapture :: "camera \<Rightarrow> camera" where
  "startCapture s =
     s\<lparr>childProcess := Some (length (processes s)),
       processes := processes s @
         [\<lparr>killed = False, startPromise = Pending, errorOnce = True, dataOnce = True,
           awaitingSignature = True, handlers = [], forwarders = 0\<rparr>]\<rparr>"

text \<open>
  The rest of the call \<open>call\<close> of \<^verbatim>\<open>startCapture\<close>, once \<^verbatim>\<open>si.system()\<close> has answered
  with \<open>model\<close>: a throw of \<^verbatim>\<open>getJpegSignature\<close> is caught and rejects the promise of the
  call, and nothing else of the body runs; otherwise the data handler, with an empty
  \<^verbatim>\<open>stdoutBuffer\<close>, and after it the listeners for errors and for the close of stdout are
  registered on the process \<^verbatim>\<open>this.childProcess\<close> names at that moment.
\<close>

definition resumeStart :: "nat \<Rightarrow> string \<Rightarrow> camera \<Rightarrow> camera" where
  "resumeStart call model s =
     (if call < length (processes s) \<and> awaitingSignature (processes s ! call) then
        (let ps = (processes s)[call := (processes s ! call)\<lparr>awaitingSignature := False\<rparr>];
             reject = (\<lambda>err. s\<lparr>processes := ps[call := (ps ! call)
                         \<lparr>startPromise := settle (Rejected err) (startPromise (ps ! call))\<rparr>]\<rparr>)
         in case getJpegSignature model of
              Inl err \<Rightarrow> reject err
            | Inr jpegSig \<Rightarrow>
                (case childProcess s of
                   None \<Rightarrow> reject TypeError
                 | Some pid \<Rightarrow>
                     s\<lparr>processes := ps[pid := (ps ! pid)
                         \<lparr>handlers := handlers (ps ! pid) @ [(jpegSig, [])],
                          forwarders := Suc (forwarders (ps ! pid))\<rparr>]\<rparr>))
      else s)"

text \<open>
  The \<^verbatim>\<open>'error'\<close> event of a child process: its \<^verbatim>\<open>once\<close> listener rejects the promise.
  A process is taken to emit it at most once (a failed spawn); a later one changes
  nothing here.
\<close>

definition processError :: "nat \<Rightarrow> camera \<Rightarrow> camera" where
  "processError pid s =
     (if pid < length (processes s) \<and> errorOnce (processes s ! pid) then
        s\<lparr>processes := (processes s)[pid := (processes s ! pid)
            \<lparr>startPromise := settle (Rejected CaptureStartFailed) (startPromise (processes s ! pid)),
             errorOnce := False\<rparr>]\<rparr>
      else s)"

text \<open>\<^verbatim>\<open>this.streams.forEach((innerStream) => innerStream.push(x))\<close>.\<close>

definition push :: "item \<Rightarrow> item list list \<Rightarrow> nat \<Rightarrow> item list list" where
  "push x rs sid = rs[sid := rs ! sid @ [x]]"

definition pushAll :: "item \<Rightarrow> camera \<Rightarrow> camera" where
  "pushAll x s = s\<lparr>readables := foldl (push x) (readables s) (streams s)\<rparr>"

text \<open>
  \<^verbatim>\<open>this.emit('frame', img)\<close>: the event is observed, every \<^verbatim>\<open>once\<close> listener of a
  pending \<^verbatim>\<open>takeImage\<close> resolves its promise with the image, and these listeners are
  removed.
\<close>

definition emitFrame :: "camera \<Rightarrow> byte list \<Rightarrow> camera" where
  "emitFrame s img =
     s\<lparr>frames := frames s @ [img],
       images := foldl (\<lambda>im k. im[k := Some img]) (images s) (frameOnce s),
       frameOnce := []\<rparr>"

text \<open>
  One run of a data handler \<open>h = (jpegSignature, stdoutBuffer)\<close> on a chunk: the fan-out
  to the streams, then \<open>handleChunk\<close>, whose frames are emitted in order. The result is
  the handler with its new buffer, and the camera.
\<close>

definition onData ::
  "byte list \<Rightarrow> byte list \<times> byte list \<Rightarrow> camera
     \<Rightarrow> ((byte list \<times> byte list) \<times> camera) option" where
  "onData data h s =
     (case handleChunk (codec s) (fst h) (snd h) data of
        None \<Rightarrow> None
      | Some (imgs, buf) \<Rightarrow>
          Some ((fst h, buf), foldl emitFrame (pushAll (Chunk data) s) imgs))"

fun runHandlers ::
  "byte list \<Rightarrow> (byte list \<times> byte list) list \<Rightarrow> camera
     \<Rightarrow> ((byte list \<times> byte list) list \<times> camera) option" where
  "runHandlers data [] s = Some ([], s)"
| "runHandlers data (h # hs) s =
     (case onData data h s of
        None \<Rightarrow> None
      | Some (h', s1) \<Rightarrow>
          (case runHandlers data hs s1 of
             None \<Rightarrow> None
           | Some (hs', s2) \<Rightarrow> Some (h' # hs', s2)))"

text \<open>
  A \<^verbatim>\<open>'data'\<close> event on the stdout of process \<open>pid\<close>: the listeners run in the order of
  their registration, first the \<^verbatim>\<open>once\<close> listener that resolves the promise, then the
  data handlers.
\<close>

definition stdoutData :: "nat \<Rightarrow> byte list \<Rightarrow> camera \<Rightarrow> camera option" where
  "stdoutData pid data s =
     (if pid < length (processes s) then
        (let p = processes s ! pid;
             p1 = (if dataOnce p
                   then p\<lparr>startPromise := settle Resolved (startPromise p), dataOnce := False\<rparr>
                   else p);
             s1 = s\<lparr>processes := (processes s)[pid := p1]\<rparr>
         in case runHandlers data (handlers p1) s1 of
              None \<Rightarrow> None
            | Some (hs, s2) \<Rightarrow>
                Some (s2\<lparr>processes := (processes s2)[pid := (processes s2 ! pid)
                           \<lparr>handlers := hs\<rparr>]\<rparr>))
      else Some s)"

definition stopCapture :: "camera \<Rightarrow> camera" where
  "stopCapture s =
     (let s1 = (case childProcess s of
                  None \<Rightarrow> s
                | Some pid \<Rightarrow>
                    s\<lparr>processes := (processes s)[pid := (processes s ! pid)\<lparr>killed := True\<rparr>]\<rparr>)
      in (pushAll EOF s1)\<lparr>streams := []\<rparr>)"

text \<open>\<^verbatim>\<open>createStream\<close> returns the new Readable.\<close>

definition createStream :: "camera \<Rightarrow> nat \<times> camera" where
  "createStream s =
     (length (readables s),
      s\<lparr>readables := readables s @ [[]], streams := streams s @ [length (readables s)]\<rparr>)"

text \<open>
  \<^verbatim>\<open>takeImage\<close> throws (\<open>Inl\<close>) when the codec is not MJPEG; otherwise it returns a new
  promise, whose \<^verbatim>\<open>once('frame', ...)\<close> listener it has registered.
\<close>

definition takeImage :: "camera \<Rightarrow> error + nat \<times> camera" where
  "takeImage s =
     (if codec s \<noteq> MJPEG then Inl CodecNotMJPEG
      else Inr (length (images s),
                s\<lparr>images := images s @ [None],
                  frameOnce := frameOnce s @ [length (images s)]\<rparr>))"

text \<open>
  What can happen to a camera: calls of its methods, and the events of its processes
  (the answer of \<^verbatim>\<open>si.system()\<close> for a suspended call, an \<^verbatim>\<open>'error'\<close>, a stdout chunk). A
  step returns \<open>None\<close> when a data handler never returns. An event that names a
  process that was never spawned, or a call that is not suspended, changes nothing. The
  command line of the process is left out, and so are the \<^verbatim>\<open>'error'\<close> and \<^verbatim>\<open>'close'\<close>
  events that the listeners counted in \<open>forwarders\<close> pass on to the observers of the
  camera.
\<close>

datatype event =
    StartCapture
  | SignatureResolved nat string
  | ProcessError nat
  | StdoutData nat "byte list"
  | StopCapture
  | CreateStream
  | TakeImage

fun step :: "camera \<Rightarrow> event \<Rightarrow> camera option" where
  "step s StartCapture = Some (startCapture s)"
| "step s (SignatureResolved call model) = Some (resumeStart call model s)"
| "step s (ProcessError pid) = Some (processError pid s)"
| "step s (StdoutData pid data) = stdoutData pid data s"
| "step s StopCapture = Some (stopCapture s)"
| "step s CreateStream = Some (snd (createStream s))"
| "step s TakeImage = (case takeImage s of Inl err \<Rightarrow> Some s | Inr (k, s') \<Rightarrow> Some s')"

fun run :: "camera \<Rightarrow> event list \<Rightarrow> camera option" where
  "run s [] = Some s"
| "run s (e # es) = (case step s e of None \<Rightarrow> None | Some s' \<Rightarrow> run s' es)"

text \<open>
  The chunks the data handlers are run on during a sequence of events, in order: a stdout
  chunk of a process is dispatched once by each handler registered on that process.
\<close>

definition dispatchedBy :: "camera \<Rightarrow> event \<Rightarrow> byte list list" where
  "dispatchedBy s e =
     (case e of
        StdoutData pid data \<Rightarrow>
          (if pid < length (processes s)
           then replicate (length (handlers (processes s ! pid))) data else [])
      | _ \<Rightarrow> [])"

fun dispatched :: "camera \<Rightarrow> event list \<Rightarrow> byte list list" where
  "dispatched s [] = []"
| "dispatched s (e # es) =
     dispatchedBy s e @ (case step s e of None \<Rightarrow> [] | Some s' \<Rightarrow> dispatched s' es)"

section \<open>Invariants of the camera\<close>

text \<open>
  What holds of a camera after every sequence of events: the registry \<open>streams\<close> names
  Readables that exist, each once; every data handler carries the JPEG signature; every
  \<^verbatim>\<open>once('frame', ...)\<close> listener belongs to a promise that exists.
\<close>

definition camera_inv :: "camera \<Rightarrow> bool" where
  "camera_inv s =
     (distinct (streams s) \<and>
      (\<forall>sid \<in> set (streams s). sid < length (readables s)) \<and>
      (\<forall>p \<in> set (processes s). \<forall>h \<in> set (handlers p). fst h = jpegSignature) \<and>
      (\<forall>k \<in> set (frameOnce s). k < length (images s)))"

text \<open>
  A registered Readable has not been sent the end of the stream; one that is no longer
  registered has been sent it once, as the last thing pushed.
\<close>

definition eof_inv :: "camera \<Rightarrow> bool" where
  "eof_inv s =
     (\<forall>sid < length (readables s).
        if sid \<in> set (streams s) then EOF \<notin> set (readables s ! sid)
        else \<exists>xs. readables s ! sid = xs @ [EOF] \<and> EOF \<notin> set xs)"

text \<open>
  The effect on the camera of one run of a data handler that emits the frames \<open>imgs\<close>,
  and of several runs in a row.
\<close>

definition deliver :: "byte list \<Rightarrow> byte list list \<Rightarrow> camera \<Rightarrow> camera" where
  "deliver data imgs s = foldl emitFrame (pushAll (Chunk data) s) imgs"

definition deliverAll :: "byte list \<Rightarrow> byte list list list \<Rightarrow> camera \<Rightarrow> camera" where
  "deliverAll data imgss s = fold (deliver data) imgss s"

section \<open>Properties of the signature search\<close>

lemma search_Some_iff:
  "v \<noteq> [] \<Longrightarrow> (search v xs i = Some k) =
     (i \<le> k \<and> prefix v (drop (k - i) xs) \<and> (\<forall>j < k - i. \<not> prefix v (drop j xs)))"
proof (induction xs arbitrary: i)
  case Nil
  then show ?case by simp
next
  case (Cons x xs)
  show ?case
  proof (cases "prefix v (x # xs)")
    case True
    show ?thesis
    proof (cases "k = i")
      case True
      with \<open>prefix v (x # xs)\<close> show ?thesis by simp
    next
      case False
      have "\<not> (\<forall>j < k - i. \<not> prefix v (drop j (x # xs)))" if "i \<le> k"
      proof -
        have "0 < k - i" using that False by simp
        moreover have "prefix v (drop 0 (x # xs))" using True by simp
        ultimately show ?thesis by blast
      qed
      with True False show ?thesis by auto
    qed
  next
    case False
    have "(search v (x # xs) i = Some k) = (search v xs (Suc i) = Some k)"
      using False by simp
    also have "\<dots> = (Suc i \<le> k \<and> prefix v (drop (k - Suc i) xs) \<and>
        (\<forall>j < k - Suc i. \<not> prefix v (drop j xs)))"
      using Cons.IH [OF Cons.prems] .
    also have "\<dots> = (i \<le> k \<and> prefix v (drop (k - i) (x # xs)) \<and>
        (\<forall>j < k - i. \<not> prefix v (drop j (x # xs))))"
    proof (cases "Suc i \<le> k")
      case True
      then have e: "k - i = Suc (k - Suc i)" by simp
      show ?thesis using False True
        by (auto simp: e less_Suc_eq_0_disj simp del: Cons_prefix_Cons)
    next
      case False
      with \<open>\<not> prefix v (x # xs)\<close> show ?thesis by (cases "k = i") auto
    qed
    finally show ?thesis .
  qed
qed

lemma search_None_iff:
  "v \<noteq> [] \<Longrightarrow> (search v xs i = None) = (\<forall>j. \<not> prefix v (drop j xs))"
proof (induction xs arbitrary: i)
  case Nil
  then show ?case by simp
next
  case (Cons x xs)
  have "(\<forall>j. \<not> prefix v (drop j (x # xs))) =
        (\<not> prefix v (x # xs) \<and> (\<forall>j. \<not> prefix v (drop j xs)))"
    (is "?L = ?R")
  proof
    assume l: ?L
    have "\<not> prefix v (drop 0 (x # xs))" using l by blast
    moreover have "\<not> prefix v (drop (Suc j) (x # xs))" for j using l by blast
    ultimately show ?R by simp
  next
    assume r: ?R
    show ?L
    proof
      fix j show "\<not> prefix v (drop j (x # xs))" using r by (cases j) auto
    qed
  qed
  then show ?case using Cons by simp
qed

lemma indexOf_Some_iff:
  assumes "v \<noteq> []"
  shows "(indexOf buf v off = Some k) =
     (off \<le> k \<and> prefix v (drop k buf) \<and> (\<forall>j. off \<le> j \<and> j < k \<longrightarrow> \<not> prefix v (drop j buf)))"
proof (cases "off \<le> length buf")
  case True
  have a: "(\<forall>j < k - off. \<not> prefix v (drop (j + off) buf)) =
        (\<forall>j. off \<le> j \<and> j < k \<longrightarrow> \<not> prefix v (drop j buf))" (is "?A = ?B")
  proof
    assume h: ?A
    show ?B
    proof (intro allI impI)
      fix j assume "off \<le> j \<and> j < k"
      then have "j - off < k - off" "j - off + off = j" by auto
      with h show "\<not> prefix v (drop j buf)" by metis
    qed
  next
    assume h: ?B
    show ?A
    proof (intro allI impI)
      fix j assume "j < k - off"
      then have "off \<le> j + off \<and> j + off < k" by auto
      with h show "\<not> prefix v (drop (j + off) buf)" by blast
    qed
  qed
  show ?thesis
    using True assms a
    by (auto simp: indexOf_def search_Some_iff min_def)
next
  case False
  then have "drop k buf = []" if "off \<le> k" using that by simp
  then show ?thesis using False assms by (auto simp: indexOf_def)
qed

lemma indexOf_None_iff:
  assumes "v \<noteq> []"
  shows "(indexOf buf v off = None) = (\<forall>j\<ge>off. \<not> prefix v (drop j buf))"
proof -
  have "(\<forall>j. \<not> prefix v (drop (j + off) buf)) = (\<forall>j\<ge>off. \<not> prefix v (drop j buf))"
    (is "?A = ?B")
  proof
    assume h: ?A
    show ?B
    proof (intro allI impI)
      fix j assume "off \<le> j"
      then have "j - off + off = j" by simp
      with h show "\<not> prefix v (drop j buf)" by metis
    qed
  next
    assume ?B then show ?A by simp
  qed
  then show ?thesis using assms by (simp add: indexOf_def search_None_iff)
qed

section \<open>Properties of the frame extraction loop\<close>

lemma extractFrames_none:
  "indexOf buf sig 0 = None \<Longrightarrow> extractFrames sig buf acc = Some (acc, buf)"
  by (subst extractFrames.simps) simp

lemma extractFrames_first:
  "indexOf buf sig 0 = Some i \<Longrightarrow> extractFrames sig buf acc =
     (case indexOf (drop i buf) sig (length sig) of
        None \<Rightarrow> Some (acc, drop i buf)
      | Some j \<Rightarrow> extractFrames sig (drop j (drop i buf)) (acc @ [take j (drop i buf)]))"
  by (subst extractFrames.simps) (auto simp: Let_def split: option.splits)

lemma next_index_bounds:
  assumes "sig \<noteq> []" and "indexOf buf sig (length sig) = Some j"
  shows "0 < j" and "j < length buf" and "length sig \<le> j" and "prefix sig (drop j buf)"
proof -
  from assms have a: "length sig \<le> j" and b: "prefix sig (drop j buf)"
    by (simp_all add: indexOf_Some_iff)
  show "length sig \<le> j" by (rule a)
  show "prefix sig (drop j buf)" by (rule b)
  show "0 < j" using a assms(1) by (cases sig) auto
  show "j < length buf"
  proof (rule ccontr)
    assume "\<not> j < length buf"
    then have "drop j buf = []" by simp
    with b assms(1) show False by simp
  qed
qed

lemma extractFrames_induct_total:
  assumes ne: "sig \<noteq> []"
    and none: "\<And>buf acc. indexOf buf sig 0 = None \<Longrightarrow> P buf acc (acc, buf)"
    and one: "\<And>buf acc i. indexOf buf sig 0 = Some i \<Longrightarrow>
        indexOf (drop i buf) sig (length sig) = None \<Longrightarrow> P buf acc (acc, drop i buf)"
    and more: "\<And>buf acc i j res. indexOf buf sig 0 = Some i \<Longrightarrow>
        indexOf (drop i buf) sig (length sig) = Some j \<Longrightarrow>
        extractFrames sig (drop j (drop i buf)) (acc @ [take j (drop i buf)]) = Some res \<Longrightarrow>
        P (drop j (drop i buf)) (acc @ [take j (drop i buf)]) res \<Longrightarrow> P buf acc res"
  shows "\<exists>res. extractFrames sig buf acc = Some res \<and> P buf acc res"
proof (induction "length buf" arbitrary: buf acc rule: less_induct)
  case less
  show ?case
  proof (cases "indexOf buf sig 0")
    case None
    then show ?thesis by (simp add: extractFrames_none none)
  next
    case (Some i)
    note first = this
    show ?thesis
    proof (cases "indexOf (drop i buf) sig (length sig)")
      case None
      then show ?thesis using first by (simp add: extractFrames_first one)
    next
      case (Some j)
      have "0 < j" "j < length (drop i buf)"
        using next_index_bounds [OF ne Some] by blast+
      then have "length (drop j (drop i buf)) < length buf" by simp
      from less [OF this, of "acc @ [take j (drop i buf)]"]
      obtain res where r: "extractFrames sig (drop j (drop i buf)) (acc @ [take j (drop i buf)]) = Some res"
        and p: "P (drop j (drop i buf)) (acc @ [take j (drop i buf)]) res" by blast
      have "extractFrames sig buf acc = Some res"
        using first Some r by (simp add: extractFrames_first)
      moreover have "P buf acc res" using more [OF first Some r p] .
      ultimately show ?thesis by blast
    qed
  qed
qed

lemma extractFrames_extends:
  assumes "sig \<noteq> []"
  shows "\<exists>res. extractFrames sig buf acc = Some res \<and> (\<exists>new. fst res = acc @ new)"
  by (rule extractFrames_induct_total [OF assms]) auto

lemma extractFrames_acc:
  assumes "sig \<noteq> []"
  shows "\<exists>res. extractFrames sig buf acc = Some res \<and>
     (\<forall>acc'. extractFrames sig buf acc' = Some (acc' @ drop (length acc) (fst res), snd res))"
proof (rule extractFrames_induct_total [OF assms], goal_cases)
  case (1 buf acc)
  then show ?case by (simp add: extractFrames_none)
next
  case (2 buf acc i)
  then show ?case by (simp add: extractFrames_first)
next
  case (3 buf acc i j res)
  obtain new where "fst res = (acc @ [take j (drop i buf)]) @ new"
    using extractFrames_extends [OF assms, of "drop j (drop i buf)" "acc @ [take j (drop i buf)]"] 3(3)
    by auto
  then have "drop (length acc) (fst res) = take j (drop i buf) # drop (Suc (length acc)) (fst res)"
    by simp
  with 3 show ?case by (simp add: extractFrames_first)
qed

lemma prefix_drop_append:
  assumes "prefix v (drop j (buf @ c))" and "j + length v \<le> length buf"
  shows "prefix v (drop j buf)"
proof -
  have "j \<le> length buf" using assms(2) by simp
  then have "drop j (buf @ c) = drop j buf @ c" by simp
  with assms(1) have "prefix v (drop j buf @ c)" by simp
  moreover have "prefix (drop j buf) (drop j buf @ c)" by simp
  moreover have "length v \<le> length (drop j buf)" using assms(2) by simp
  ultimately show ?thesis by (rule prefix_length_prefix)
qed

lemma prefix_drop_bound:
  assumes "v \<noteq> []" and "prefix v (drop k buf)"
  shows "k + length v \<le> length buf"
proof -
  have "length v \<le> length (drop k buf)" using assms(2) by (rule prefix_length_le)
  moreover have "k < length buf"
  proof (rule ccontr)
    assume "\<not> k < length buf"
    then have "drop k buf = []" by simp
    with assms show False by simp
  qed
  ultimately show ?thesis by simp
qed

lemma indexOf_append:
  assumes ne: "v \<noteq> []" and "indexOf buf v off = Some k"
  shows "indexOf (buf @ c) v off = Some k"
proof -
  from assms have a: "off \<le> k" and b: "prefix v (drop k buf)"
    and l: "\<forall>j. off \<le> j \<and> j < k \<longrightarrow> \<not> prefix v (drop j buf)"
    by (simp_all add: indexOf_Some_iff)
  have bound: "k + length v \<le> length buf" using prefix_drop_bound [OF ne b] .
  then have "drop k (buf @ c) = drop k buf @ c" by simp
  with b have b': "prefix v (drop k (buf @ c))" by (simp add: prefix_prefix)
  have "\<not> prefix v (drop j (buf @ c))" if "off \<le> j \<and> j < k" for j
  proof
    assume "prefix v (drop j (buf @ c))"
    moreover have "j + length v \<le> length buf" using that bound by simp
    ultimately have "prefix v (drop j buf)" by (rule prefix_drop_append)
    with l that show False by blast
  qed
  with a b' show ?thesis by (simp add: indexOf_Some_iff [OF ne])
qed

lemma extractFrames_drop_first:
  assumes ne: "sig \<noteq> []" and first: "indexOf buf sig 0 = Some i"
  shows "extractFrames sig (drop i buf) acc = extractFrames sig buf acc"
proof -
  have "prefix sig (drop i buf)" using assms by (simp add: indexOf_Some_iff)
  then have "indexOf (drop i buf) sig 0 = Some 0" by (simp add: indexOf_Some_iff [OF ne])
  from extractFrames_first [OF this, of acc] extractFrames_first [OF first, of acc]
  show ?thesis by (simp cong: option.case_cong)
qed

lemma extractFrames_chunk:
  assumes ne: "sig \<noteq> []"
  shows "\<exists>res. extractFrames sig buf acc = Some res \<and>
     (\<forall>c. extractFrames sig (snd res @ c) (fst res) = extractFrames sig (buf @ c) acc)"
proof (rule extractFrames_induct_total [OF ne], goal_cases)
  case (1 buf acc)
  show ?case by simp
next
  case (2 buf acc i)
  show ?case
  proof (intro allI)
    fix c
    have le: "i \<le> length buf" using prefix_drop_bound [OF ne, of i buf] 2(1)
      by (simp add: indexOf_Some_iff [OF ne])
    have "indexOf (buf @ c) sig 0 = Some i" using indexOf_append [OF ne 2(1)] .
    from extractFrames_drop_first [OF ne this, of acc] le
    show "extractFrames sig (snd (acc, drop i buf) @ c) (fst (acc, drop i buf)) =
      extractFrames sig (buf @ c) acc" by simp
  qed
next
  case (3 buf acc i j res)
  show ?case
  proof (intro allI)
    fix c
    have le: "i \<le> length buf" using prefix_drop_bound [OF ne, of i buf] 3(1)
      by (simp add: indexOf_Some_iff [OF ne])
    have lj: "j \<le> length (drop i buf)"
      using next_index_bounds(2) [OF ne 3(2)] by simp
    have f: "indexOf (buf @ c) sig 0 = Some i" using indexOf_append [OF ne 3(1)] .
    have "indexOf (drop i buf @ c) sig (length sig) = Some j"
      using indexOf_append [OF ne 3(2)] .
    then have n: "indexOf (drop i (buf @ c)) sig (length sig) = Some j" using le by simp
    have e1: "drop i (buf @ c) = drop i buf @ c" using le by simp
    have e2: "drop j (drop i buf @ c) = drop j (drop i buf) @ c" using lj by simp
    have e3: "take j (drop i buf @ c) = take j (drop i buf)" using lj by simp
    have "extractFrames sig (buf @ c) acc =
        extractFrames sig (drop j (drop i (buf @ c))) (acc @ [take j (drop i (buf @ c))])"
      using extractFrames_first [OF f, of acc] n by (simp only: option.case)
    also have "\<dots> = extractFrames sig (drop j (drop i buf) @ c) (acc @ [take j (drop i buf)])"
      by (simp only: e1 e2 e3)
    finally show "extractFrames sig (snd res @ c) (fst res) = extractFrames sig (buf @ c) acc"
      using 3(4) by (simp only:)
  qed
qed

lemma feed_step:
  assumes ne: "sig \<noteq> []"
  shows "feed sig (c # cs) (em, buf) =
    (case extractFrames sig (buf @ c) em of None \<Rightarrow> None | Some st \<Rightarrow> feed sig cs st)"
proof -
  from extractFrames_acc [OF ne, of "buf @ c" "[]"]
  obtain res where ra: "extractFrames sig (buf @ c) [] = Some res \<and>
    (\<forall>acc'. extractFrames sig (buf @ c) acc' = Some (acc' @ fst res, snd res))" by auto
  note r = ra [THEN conjunct1] and a = ra [THEN conjunct2]
  from a [rule_format, of em]
  have "extractFrames sig (buf @ c) em = Some (em @ fst res, snd res)" by simp
  moreover have "handleChunk MJPEG sig buf c = Some (fst res, snd res)"
    using r by (simp add: handleChunk_def)
  ultimately show ?thesis by (simp add: case_prod_beta)
qed

lemma feed_concat:
  assumes ne: "sig \<noteq> []"
  shows "extractFrames sig buf em = Some (em, buf) \<Longrightarrow>
     feed sig chunks (em, buf) = extractFrames sig (buf @ concat chunks) em"
proof (induction chunks arbitrary: em buf)
  case Nil
  then show ?case by simp
next
  case (Cons c cs)
  from extractFrames_chunk [OF ne, of "buf @ c" em]
  obtain res where rk: "extractFrames sig (buf @ c) em = Some res \<and>
    (\<forall>d. extractFrames sig (snd res @ d) (fst res) = extractFrames sig ((buf @ c) @ d) em)" ..
  note r = rk [THEN conjunct1] and k = rk [THEN conjunct2]
  from k [rule_format, of "[]"] r
  have stable: "extractFrames sig (snd res) (fst res) = Some (fst res, snd res)"
    by simp
  have "feed sig (c # cs) (em, buf) = feed sig cs (fst res, snd res)"
    using r feed_step [OF ne, of c cs em buf] by (simp only: option.case prod.collapse)
  also have "\<dots> = extractFrames sig (snd res @ concat cs) (fst res)"
    using Cons.IH [OF stable] .
  also have "\<dots> = extractFrames sig ((buf @ c) @ concat cs) em"
    using k [rule_format, of "concat cs"] .
  finally show ?case by simp
qed

lemma feed_initial:
  assumes ne: "sig \<noteq> []"
  shows "feed sig chunks ([], []) = extractFrames sig (concat chunks) []"
proof -
  have "indexOf [] sig 0 = None" using ne by (simp add: indexOf_def)
  then have "extractFrames sig [] [] = Some ([], [])" by (rule extractFrames_none)
  from feed_concat [OF ne this, of chunks] show ?thesis by simp
qed

lemma prefix_take_ge:
  assumes "prefix v xs" and "length v \<le> j"
  shows "prefix v (take j xs)"
proof (cases "j \<le> length xs")
  case True
  have "prefix (take j xs) xs" by (rule take_is_prefix)
  moreover have "length v \<le> length (take j xs)" using assms(2) True by simp
  ultimately show ?thesis using assms(1) prefix_length_prefix by blast
next
  case False
  then show ?thesis using assms(1) by simp
qed

lemma frame_shape:
  assumes ne: "sig \<noteq> []" and first: "prefix sig b"
    and nxt: "indexOf b sig (length sig) = Some j"
  shows "prefix sig (take j b)" and "indexOf (take j b) sig (length sig) = None"
proof -
  from nxt have lj: "length sig \<le> j"
    and least: "\<forall>p. length sig \<le> p \<and> p < j \<longrightarrow> \<not> prefix sig (drop p b)"
    by (simp_all add: indexOf_Some_iff [OF ne])
  show "prefix sig (take j b)" using first lj by (rule prefix_take_ge)
  have "\<not> prefix sig (drop p (take j b))" if "length sig \<le> p" for p
  proof
    assume a: "prefix sig (drop p (take j b))"
    have "p + length sig \<le> length (take j b)" using prefix_drop_bound [OF ne a] .
    then have pj: "p < j" using ne by (cases sig) auto
    have "drop p (take j b) = take (j - p) (drop p b)" by (simp add: drop_take)
    then have "prefix (drop p (take j b)) (drop p b)" by (simp add: take_is_prefix)
    with a have "prefix sig (drop p b)" by (rule prefix_order.trans)
    with least that pj show False by blast
  qed
  then show "indexOf (take j b) sig (length sig) = None"
    by (simp add: indexOf_None_iff [OF ne])
qed

lemma extractFrames_frames:
  assumes ne: "sig \<noteq> []"
  shows "\<exists>res. extractFrames sig buf acc = Some res \<and>
     (\<exists>new. fst res = acc @ new \<and>
        (\<forall>f \<in> set new. prefix sig f \<and> indexOf f sig (length sig) = None))"
proof (rule extractFrames_induct_total [OF ne], goal_cases)
  case (1 buf acc)
  show ?case by simp
next
  case (2 buf acc i)
  show ?case by simp
next
  case (3 buf acc i j res)
  from 3(4) obtain new where n: "fst res = (acc @ [take j (drop i buf)]) @ new"
    and g: "\<forall>f \<in> set new. prefix sig f \<and> indexOf f sig (length sig) = None" by blast
  have p: "prefix sig (drop i buf)" using 3(1) by (simp add: indexOf_Some_iff [OF ne])
  note fs = frame_shape [OF ne p 3(2)]
  have "fst res = acc @ (take j (drop i buf) # new)" using n by simp
  moreover have "\<forall>f \<in> set (take j (drop i buf) # new).
      prefix sig f \<and> indexOf f sig (length sig) = None" using g fs by simp
  ultimately show ?case by blast
qed

lemma extractFrames_buffer:
  assumes ne: "sig \<noteq> []"
  shows "\<exists>res. extractFrames sig buf acc = Some res \<and>
     (indexOf (snd res) sig 0 = None \<or>
      (prefix sig (snd res) \<and> indexOf (snd res) sig (length sig) = None))"
proof (rule extractFrames_induct_total [OF ne], goal_cases)
  case (1 buf acc)
  then show ?case by simp
next
  case (2 buf acc i)
  then show ?case by (simp add: indexOf_Some_iff [OF ne])
next
  case (3 buf acc i j res)
  then show ?case by simp
qed

text \<open>
  Nothing behind the first signature is lost: the frames and the buffer that is kept
  make up the bytes from the first occurrence on.
\<close>

lemma extractFrames_conserves:
  assumes ne: "sig \<noteq> []"
  shows "\<exists>res. extractFrames sig buf acc = Some res \<and>
     ((indexOf buf sig 0 = None \<and> res = (acc, buf)) \<or>
      (\<exists>i new. indexOf buf sig 0 = Some i \<and> fst res = acc @ new \<and>
         concat new @ snd res = drop i buf \<and>
         prefix sig (snd res) \<and> indexOf (snd res) sig (length sig) = None))"
proof (rule extractFrames_induct_total [OF ne], goal_cases)
  case (1 buf acc)
  then show ?case by simp
next
  case (2 buf acc i)
  have "prefix sig (drop i buf)" using 2(1) by (simp add: indexOf_Some_iff [OF ne])
  moreover have "fst (acc, drop i buf) = acc @ []" by simp
  moreover have "concat [] @ snd (acc, drop i buf) = drop i buf" by simp
  ultimately show ?case using 2 by fastforce
next
  case (3 buf acc i j res)
  let ?b = "drop i buf"
  let ?c = "drop j ?b"
  have "prefix sig ?c" using next_index_bounds(4) [OF ne 3(2)] .
  then have c0: "indexOf ?c sig 0 = Some 0" by (simp add: indexOf_Some_iff [OF ne])
  with 3(4) obtain new where n: "fst res = (acc @ [take j ?b]) @ new"
    and k: "concat new @ snd res = drop 0 ?c"
    and p: "prefix sig (snd res)" and l: "indexOf (snd res) sig (length sig) = None"
    by auto
  have "fst res = acc @ (take j ?b # new)" using n by simp
  moreover have "concat (take j ?b # new) @ snd res = ?b"
  proof -
    have "concat (take j ?b # new) @ snd res = take j ?b @ (concat new @ snd res)" by simp
    also have "\<dots> = take j ?b @ ?c" using k by (simp only: drop_0)
    also have "\<dots> = ?b" by (rule append_take_drop_id)
    finally show ?thesis .
  qed
  ultimately show ?case using 3(1) p l by blast
qed

text \<open>
  With an empty signature the loop never breaks: both searches answer 0, an empty frame
  is emitted and the buffer stays as it is.
\<close>

lemma indexOf_empty: "indexOf buf [] 0 = Some 0"
  by (cases buf) (simp_all add: indexOf_def)

lemma extractFrames_Some_signature:
  assumes "extractFrames sig buf acc = Some res"
  shows "sig \<noteq> []"
proof (rule extractFrames.raw_induct [where P = "\<lambda>sig buf acc res. sig \<noteq> []", OF _ assms])
  fix loop :: "'a list \<Rightarrow> 'a list \<Rightarrow> 'a list list \<Rightarrow> ('a list list \<times> 'a list) option"
    and v b :: "'a list" and em :: "'a list list" and r :: "'a list list \<times> 'a list"
  assume ih: "\<And>v' b' em' r'. loop v' b' em' = Some r' \<Longrightarrow> v' \<noteq> []"
    and body: "(case indexOf b v 0 of
        None \<Rightarrow> Some (em, b)
      | Some signatureIndex \<Rightarrow>
          (let buf1 = (if signatureIndex > 0 then drop signatureIndex b else b)
           in case indexOf buf1 v (length v) of
                None \<Rightarrow> Some (em, buf1)
              | Some nextSignatureIndex \<Rightarrow>
                  loop v (drop nextSignatureIndex buf1)
                    (em @ [take nextSignatureIndex buf1]))) = Some r"
  show "v \<noteq> []"
  proof
    assume e: "v = []"
    from body have "loop [] b (em @ [[]]) = Some r"
      by (simp add: e indexOf_empty)
    from ih [OF this] show False by simp
  qed
qed

lemma extractFrames_empty_signature: "extractFrames [] buf acc = None"
proof (cases "extractFrames [] buf acc")
  case None
  then show ?thesis .
next
  case (Some res)
  from extractFrames_Some_signature [OF this] show ?thesis by simp
qed

section \<open>Frames and occurrences of the signature\<close>

lemma occurrences_from:
  assumes "lo \<le> m" and "m \<le> length buf"
  shows "filter (\<lambda>i. prefix v (drop i buf)) [lo..<length buf] =
     filter (\<lambda>i. prefix v (drop i buf)) [lo..<m] @ map (\<lambda>p. p + m) (occurrences v (drop m buf))"
proof -
  have "[lo..<length buf] = [lo..<m] @ [m..<length buf]"
    using assms by (metis le_Suc_ex upt_add_eq_append)
  moreover have "[m..<length buf] = map (\<lambda>p. p + m) [0..<length buf - m]"
    using assms(2) by (simp add: map_add_upt)
  moreover have "filter (\<lambda>i. prefix v (drop i buf)) (map (\<lambda>p. p + m) xs) =
      map (\<lambda>p. p + m) (filter (\<lambda>p. prefix v (drop p (drop m buf))) xs)" for xs
    by (simp add: filter_map comp_def)
  ultimately show ?thesis by (simp add: occurrences_def)
qed

lemma occurrences_skip:
  assumes "m \<le> length buf" and "\<forall>p < m. \<not> prefix v (drop p buf)"
  shows "occurrences v buf = map (\<lambda>p. p + m) (occurrences v (drop m buf))"
proof -
  have "filter (\<lambda>i. prefix v (drop i buf)) [0..<m] = []"
    using assms(2) by (simp add: filter_empty_conv)
  with occurrences_from [of 0 m buf v] assms(1) show ?thesis
    by (simp add: occurrences_def)
qed

lemma occurrences_head:
  assumes ne: "v \<noteq> []" and p: "prefix v b" and "0 < j" and "j \<le> length b"
    and none: "\<forall>p. 0 < p \<and> p < j \<longrightarrow> \<not> prefix v (drop p b)"
  shows "occurrences v b = 0 # map (\<lambda>p. p + j) (occurrences v (drop j b))"
proof -
  have "b \<noteq> []" using ne p by auto
  then have "[0..<length b] = 0 # [1..<length b]" by (simp add: upt_rec)
  then have "occurrences v b = 0 # filter (\<lambda>i. prefix v (drop i b)) [1..<length b]"
    using p by (simp add: occurrences_def)
  moreover have "filter (\<lambda>i. prefix v (drop i b)) [1..<j] = []"
    using none by (auto simp: filter_empty_conv)
  moreover have "1 \<le> j" using \<open>0 < j\<close> by simp
  ultimately show ?thesis
    using occurrences_from [of 1 j b v] \<open>j \<le> length b\<close> by simp
qed

lemma occurrences_Nil:
  assumes "\<forall>p. \<not> prefix v (drop p buf)"
  shows "occurrences v buf = []"
  using assms by (simp add: occurrences_def filter_empty_conv)

lemma occurrences_start:
  assumes ne: "v \<noteq> []" and p: "prefix v b"
  shows "\<exists>t. occurrences v b = 0 # t"
proof -
  have "b \<noteq> []" using ne p by auto
  then have "[0..<length b] = 0 # [1..<length b]" by (simp add: upt_rec)
  then show ?thesis using p by (simp add: occurrences_def)
qed

lemma no_overlap:
  assumes u: "unbordered v" and p: "prefix v xs" and d: "0 < d" "d < length v"
  shows "\<not> prefix v (drop d xs)"
proof
  assume q: "prefix v (drop d xs)"
  from p obtain ys where xs: "xs = v @ ys" by (auto simp: prefix_def)
  have "drop d xs = drop d v @ ys" using d xs by simp
  with q have "prefix v (drop d v @ ys)" by simp
  moreover have "prefix (drop d v) (drop d v @ ys)" by simp
  moreover have "length (drop d v) \<le> length v" by simp
  ultimately have "prefix (drop d v) v" using prefix_length_prefix by blast
  moreover have "d \<in> set [1..<length v]" using d by simp
  ultimately show False using u unfolding unbordered_def by blast
qed

lemma slices_shift: "slices buf (map (\<lambda>p. p + m) ps) = slices (drop m buf) ps"
  by (induction "drop m buf" ps rule: slices.induct) (simp_all add: add.commute)

lemma slices_length: "length (slices buf ps) = length ps - 1"
  by (induction buf ps rule: slices.induct) simp_all

lemma slices_nth:
  "i < length ps - 1 \<Longrightarrow> slices buf ps ! i = take (ps ! Suc i - ps ! i) (drop (ps ! i) buf)"
proof (induction buf ps arbitrary: i rule: slices.induct)
  case (1 buf p q ps)
  then show ?case by (cases i) simp_all
qed simp_all

lemma first_facts:
  assumes ne: "sig \<noteq> []" and first: "indexOf buf sig 0 = Some i"
  shows "prefix sig (drop i buf)" and "i \<le> length buf"
    and "\<forall>p < i. \<not> prefix sig (drop p buf)"
proof -
  show p: "prefix sig (drop i buf)" using assms by (simp add: indexOf_Some_iff)
  show "i \<le> length buf" using prefix_drop_bound [OF ne p] by simp
  show "\<forall>p < i. \<not> prefix sig (drop p buf)" using assms by (simp add: indexOf_Some_iff)
qed

lemma retained_skip:
  assumes "occurrences v buf = map (\<lambda>p. p + m) (occurrences v (drop m buf))"
    and "occurrences v (drop m buf) \<noteq> []"
  shows "retained v buf = retained v (drop m buf)"
  using assms by (simp add: retained_def last_map add.commute)

lemma extractFrames_occurrences:
  assumes u: "unbordered sig"
  shows "\<exists>res. extractFrames sig buf acc = Some res \<and>
     res = (acc @ slices buf (occurrences sig buf), retained sig buf)"
proof -
  have ne: "sig \<noteq> []" using u by (simp add: unbordered_def)
  show ?thesis
  proof (rule extractFrames_induct_total [OF ne], goal_cases)
    case (1 buf acc)
    then have "occurrences sig buf = []"
      by (simp add: indexOf_None_iff [OF ne] occurrences_Nil)
    then show ?case by (simp add: retained_def)
  next
    case (2 buf acc i)
    note f = first_facts [OF ne 2(1)]
    let ?b = "drop i buf"
    have skip: "occurrences sig buf = map (\<lambda>p. p + i) (occurrences sig ?b)"
      using f(2,3) by (rule occurrences_skip)
    have none: "\<not> prefix sig (drop p ?b)" if "0 < p" for p
    proof (cases "p < length sig")
      case True
      with u f(1) that show ?thesis by (rule no_overlap)
    next
      case False
      then show ?thesis using 2(2) by (simp add: indexOf_None_iff [OF ne])
    qed
    have "?b \<noteq> []" using f(1) ne by auto
    then have "[0..<length ?b] = 0 # [1..<length ?b]" by (simp add: upt_rec)
    moreover have "filter (\<lambda>p. prefix sig (drop p ?b)) [1..<length ?b] = []"
      using none by (auto simp: filter_empty_conv)
    ultimately have "occurrences sig ?b = [0]" using f(1) by (simp add: occurrences_def)
    with skip have "occurrences sig buf = [i]" by simp
    then show ?case by (simp add: retained_def)
  next
    case (3 buf acc i j res)
    note f = first_facts [OF ne 3(1)]
    note n = next_index_bounds [OF ne 3(2)]
    let ?b = "drop i buf"
    let ?c = "drop j ?b"
    have skip: "occurrences sig buf = map (\<lambda>p. p + i) (occurrences sig ?b)"
      using f(2,3) by (rule occurrences_skip)
    have none: "\<not> prefix sig (drop p ?b)" if "0 < p \<and> p < j" for p
    proof (cases "p < length sig")
      case True
      from that have "0 < p" by simp
      with u f(1) show ?thesis using True by (rule no_overlap)
    next
      case False
      then show ?thesis using 3(2) that by (simp add: indexOf_Some_iff [OF ne])
    qed
    have head: "occurrences sig ?b = 0 # map (\<lambda>p. p + j) (occurrences sig ?c)"
      using ne f(1) n(1) _ _
    proof (rule occurrences_head)
      show "j \<le> length ?b" using n(2) by simp
      show "\<forall>p. 0 < p \<and> p < j \<longrightarrow> \<not> prefix sig (drop p ?b)" using none by blast
    qed
    obtain t where t: "occurrences sig ?c = 0 # t"
      using occurrences_start [OF ne n(4)] by blast
    have "slices buf (occurrences sig buf) = slices ?b (occurrences sig ?b)"
      by (simp only: skip slices_shift)
    also have "\<dots> = take j ?b # slices ?b (map (\<lambda>p. p + j) (occurrences sig ?c))"
      unfolding head t by simp
    also have "\<dots> = take j ?b # slices ?c (occurrences sig ?c)"
      by (simp only: slices_shift)
    finally have s: "slices buf (occurrences sig buf) = take j ?b # slices ?c (occurrences sig ?c)" .
    have "retained sig buf = retained sig ?b"
      using skip by (rule retained_skip) (simp add: head)
    also have "\<dots> = retained sig ?c"
      unfolding retained_def head t by (simp add: last_map add_ac)
    finally have r: "retained sig buf = retained sig ?c" .
    show ?case using 3(4) s r by simp
  qed
qed


section \<open>The demultiplexer on a sequence of chunks\<close>

text \<open>
  C5, the scenario as the claim states it: with signature \<open>SIG\<close>, after the chunks \<open>AAA\<close>
  and \<open>SIG1dataSIG2moredataSIG3\<close> exactly one frame \<open>SIG1data\<close> would have been emitted
  and the buffer would hold \<open>SIG2moredataSIG3\<close>. The handler does not stop there.
\<close>

theorem scenario_not_one_frame:
  "feed ''SIG'' [''AAA'', ''SIG1dataSIG2moredataSIG3''] ([], [])
     \<noteq> Some ([''SIG1data''], ''SIG2moredataSIG3'')"
  by (simp add: handleChunk_def extractFrames.simps indexOf_def)

text \<open>
  C5, as amended: the first chunk \<open>AAA\<close> emits nothing and is kept whole; the pass over
  the second chunk extracts every complete frame of the buffer, so it emits the two
  frames \<open>SIG1data\<close> and \<open>SIG2moredata\<close>, each from one \<open>SIG\<close> inclusive to the next
  exclusive, and keeps \<open>SIG3\<close> until further input arrives.
\<close>

theorem scenario_two_frames:
  "feed ''SIG'' [''AAA''] ([], []) = Some ([], ''AAA'') \<and>
   handleChunk MJPEG ''SIG'' ''AAA'' ''SIG1dataSIG2moredataSIG3''
     = Some ([''SIG1data'', ''SIG2moredata''], ''SIG3'') \<and>
   feed ''SIG'' [''AAA'', ''SIG1dataSIG2moredataSIG3''] ([], [])
     = Some ([''SIG1data'', ''SIG2moredata''], ''SIG3'')"
  by (simp add: handleChunk_def extractFrames.simps indexOf_def)

text \<open>
  C4, the invariant as the claim states it, fails on the first chunk that holds no
  signature: the chunk \<open>AAA\<close> (bytes 65) is kept as it is, so the buffer is neither empty
  nor does it begin with the JPEG signature.
\<close>

theorem buffer_kept_without_signature:
  "feed jpegSignature [[65, 65, 65]] ([], []) = Some ([], [65, 65, 65]) \<and>
   [65, 65, 65] \<noteq> ([] :: byte list) \<and>
   \<not> prefix jpegSignature [65, 65, 65]"
  by (simp add: handleChunk_def extractFrames.simps indexOf_def jpegSignature_def)

text \<open>
  C4, as amended: after every pass over a chunk, either the bytes received so far
  contain no occurrence of the signature, and then no frame has been emitted and the
  buffer holds all of them, as they were received; or the buffer begins with the
  signature and contains no further occurrence from the offset of the signature's length
  on, and the frames emitted so far followed by the buffer are the bytes received from
  the first occurrence of the signature on.
\<close>

theorem buffer_after_each_pass:
  assumes "sig \<noteq> []"
  shows "\<exists>fs buf. feed sig chunks ([], []) = Some (fs, buf) \<and>
     ((indexOf (concat chunks) sig 0 = None \<and> fs = [] \<and> buf = concat chunks) \<or>
      (\<exists>i. indexOf (concat chunks) sig 0 = Some i \<and>
         concat fs @ buf = drop i (concat chunks) \<and>
         prefix sig buf \<and> indexOf buf sig (length sig) = None))"
proof -
  from extractFrames_conserves [OF assms, of "concat chunks" "[]"]
  obtain res where r: "extractFrames sig (concat chunks) [] = Some res"
    and c: "(indexOf (concat chunks) sig 0 = None \<and> res = ([], concat chunks)) \<or>
      (\<exists>i new. indexOf (concat chunks) sig 0 = Some i \<and> fst res = [] @ new \<and>
         concat new @ snd res = drop i (concat chunks) \<and>
         prefix sig (snd res) \<and> indexOf (snd res) sig (length sig) = None)"
    by blast
  have f: "feed sig chunks ([], []) = Some (fst res, snd res)"
    using r by (simp add: feed_initial [OF assms])
  from c have "(indexOf (concat chunks) sig 0 = None \<and> fst res = [] \<and> snd res = concat chunks) \<or>
      (\<exists>i. indexOf (concat chunks) sig 0 = Some i \<and>
         concat (fst res) @ snd res = drop i (concat chunks) \<and>
         prefix sig (snd res) \<and> indexOf (snd res) sig (length sig) = None)"
    by auto
  with f show ?thesis by blast
qed

theorem buffer_after_each_pass_witness:
  "jpegSignature \<noteq> [] \<and>
   (\<exists>fs buf. feed jpegSignature [[65, 255, 216], [255, 219, 0, 132, 0, 7]] ([], [])
        = Some (fs, buf) \<and>
      indexOf (concat [[65, 255, 216], [255, 219, 0, 132, 0, 7]]) jpegSignature 0 = Some 1 \<and>
      concat fs @ buf = drop 1 (concat [[65, 255, 216], [255, 219, 0, 132, 0, 7]]) \<and>
      prefix jpegSignature buf \<and> indexOf buf jpegSignature (length jpegSignature) = None)"
proof -
  have ne: "jpegSignature \<noteq> []" by (simp add: jpegSignature_def)
  have i: "indexOf (concat [[65, 255, 216], [255, 219, 0, 132, 0, 7]]) jpegSignature 0 = Some 1"
    by (simp add: indexOf_def jpegSignature_def)
  from buffer_after_each_pass [OF ne, of "[[65, 255, 216], [255, 219, 0, 132, 0, 7]]"]
  show ?thesis unfolding i using ne by auto
qed

text \<open>
  C10: every frame the demultiplexer emits begins with the signature at offset 0 and has
  no occurrence of the signature at any offset from the signature's length on.
\<close>

theorem emitted_frame_shape:
  assumes "sig \<noteq> []"
  shows "\<exists>fs buf. feed sig chunks ([], []) = Some (fs, buf) \<and>
     (\<forall>f \<in> set fs. prefix sig f \<and> (\<forall>p \<ge> length sig. \<not> prefix sig (drop p f)))"
proof -
  from extractFrames_frames [OF assms, of "concat chunks" "[]"]
  obtain res new where r: "extractFrames sig (concat chunks) [] = Some res"
    and n: "fst res = [] @ new"
    and g: "\<forall>f \<in> set new. prefix sig f \<and> indexOf f sig (length sig) = None"
    by blast
  have "\<forall>f \<in> set (fst res). prefix sig f \<and> (\<forall>p \<ge> length sig. \<not> prefix sig (drop p f))"
    using n g by (simp add: indexOf_None_iff [OF assms])
  with r show ?thesis by (cases res) (simp add: feed_initial [OF assms])
qed

theorem emitted_frame_shape_witness:
  "jpegSignature \<noteq> [] \<and>
   (\<exists>fs buf. feed jpegSignature [[65, 255, 216], [255, 219, 0, 132, 0, 7] @ jpegSignature]
        ([], []) = Some (fs, buf) \<and> fs \<noteq> [] \<and>
      (\<forall>f \<in> set fs. prefix jpegSignature f \<and>
         (\<forall>p \<ge> length jpegSignature. \<not> prefix jpegSignature (drop p f))))"
proof -
  have ne: "jpegSignature \<noteq> []" by (simp add: jpegSignature_def)
  have "feed jpegSignature [[65, 255, 216], [255, 219, 0, 132, 0, 7] @ jpegSignature] ([], [])
      = Some ([jpegSignature @ [7]], jpegSignature)"
    by (simp add: handleChunk_def extractFrames.simps indexOf_def jpegSignature_def)
  with emitted_frame_shape [OF ne, of "[[65, 255, 216], [255, 219, 0, 132, 0, 7] @ jpegSignature]"]
    ne show ?thesis by auto
qed

text \<open>
  A signature that cannot overlap itself: if the concatenation of the chunks contains
  \<open>k\<close> occurrences of it, exactly \<open>k - 1\<close> frames are emitted, the \<open>i\<close>-th being the slice
  from the \<open>i\<close>-th occurrence inclusive to the next exclusive, however the concatenation
  is split into chunks.
\<close>

lemma frames_between_occurrences_unbordered:
  assumes "unbordered sig"
  shows "\<exists>fs buf. feed sig chunks ([], []) = Some (fs, buf) \<and>
     length fs = length (occurrences sig (concat chunks)) - 1 \<and>
     (\<forall>i < length fs. fs ! i =
        take (occurrences sig (concat chunks) ! Suc i - occurrences sig (concat chunks) ! i)
          (drop (occurrences sig (concat chunks) ! i) (concat chunks))) \<and>
     (\<forall>chunks'. concat chunks' = concat chunks \<longrightarrow>
        feed sig chunks' ([], []) = Some (fs, buf))"
proof -
  have ne: "sig \<noteq> []" using assms by (simp add: unbordered_def)
  let ?ps = "occurrences sig (concat chunks)"
  let ?fs = "slices (concat chunks) ?ps"
  let ?buf = "retained sig (concat chunks)"
  have whole: "extractFrames sig (concat chunks) [] = Some (?fs, ?buf)"
    using extractFrames_occurrences [OF assms, of "concat chunks" "[]"] by simp
  have "feed sig chunks ([], []) = Some (?fs, ?buf)"
    using whole by (simp add: feed_initial [OF ne])
  moreover have "length ?fs = length ?ps - 1" by (rule slices_length)
  moreover have "\<forall>i < length ?fs. ?fs ! i = take (?ps ! Suc i - ?ps ! i) (drop (?ps ! i) (concat chunks))"
    by (simp add: slices_length slices_nth)
  moreover have "\<forall>chunks'. concat chunks' = concat chunks \<longrightarrow>
      feed sig chunks' ([], []) = Some (?fs, ?buf)"
    using whole by (simp add: feed_initial [OF ne])
  ultimately show ?thesis by blast
qed

text \<open>The signature of \<^verbatim>\<open>getJpegSignature\<close> cannot overlap itself.\<close>

lemma jpegSignature_unbordered: "unbordered jpegSignature"
  by (simp add: unbordered_def jpegSignature_def upt_rec)

text \<open>
  C1: a data handler only ever holds the signature that \<^verbatim>\<open>getJpegSignature\<close> returns. With
  it, for every sequence of chunks, the handler returns on every chunk; if the
  concatenation of the chunks contains \<open>k\<close> occurrences of the signature, exactly \<open>k - 1\<close>
  frames are emitted (for \<open>k \<ge> 2\<close>; none for fewer), the \<open>i\<close>-th being the slice of the
  concatenation from the \<open>i\<close>-th occurrence inclusive to the next exclusive; and every
  other way of splitting the same concatenation into chunks emits the same frames and
  keeps the same buffer.
\<close>

theorem jpeg_frames_between_occurrences:
  "\<exists>fs buf. feed jpegSignature chunks ([], []) = Some (fs, buf) \<and>
     length fs = length (occurrences jpegSignature (concat chunks)) - 1 \<and>
     (\<forall>i < length fs. fs ! i =
        take (occurrences jpegSignature (concat chunks) ! Suc i
              - occurrences jpegSignature (concat chunks) ! i)
          (drop (occurrences jpegSignature (concat chunks) ! i) (concat chunks))) \<and>
     (\<forall>chunks'. concat chunks' = concat chunks \<longrightarrow>
        feed jpegSignature chunks' ([], []) = Some (fs, buf))"
  using frames_between_occurrences_unbordered [OF jpegSignature_unbordered] .

theorem jpeg_frames_between_occurrences_witness:
  "\<exists>fs buf. feed jpegSignature
        [[65, 255, 216], [255, 219, 0, 132, 0, 7] @ jpegSignature, [8, 9] @ jpegSignature]
        ([], []) = Some (fs, buf) \<and> length fs = 2 \<and>
      fs ! 0 = jpegSignature @ [7] \<and> fs ! 1 = jpegSignature @ [8, 9]"
proof -
  have ps: "occurrences jpegSignature (concat
      [[65, 255, 216], [255, 219, 0, 132, 0, 7] @ jpegSignature, [8, 9] @ jpegSignature])
      = [1, 9, 18]"
    by (simp add: occurrences_def jpegSignature_def upt_rec)
  from jpeg_frames_between_occurrences
      [of "[[65, 255, 216], [255, 219, 0, 132, 0, 7] @ jpegSignature, [8, 9] @ jpegSignature]"]
  obtain fs buf where f: "feed jpegSignature
        [[65, 255, 216], [255, 219, 0, 132, 0, 7] @ jpegSignature, [8, 9] @ jpegSignature]
        ([], []) = Some (fs, buf)"
    and l: "length fs = 2"
    and n: "\<forall>i < length fs. fs ! i = take ([1, 9, 18] ! Suc i - [1, 9, 18] ! i)
        (drop ([1, 9, 18] ! i) (concat
          [[65, 255, 216], [255, 219, 0, 132, 0, 7] @ jpegSignature, [8, 9] @ jpegSignature]))"
    unfolding ps by auto
  have "fs ! 0 = jpegSignature @ [7]" using n [rule_format, of 0] l
    by (simp add: jpegSignature_def)
  moreover have "fs ! 1 = jpegSignature @ [8, 9]" using n [rule_format, of 1] l
    by (simp add: jpegSignature_def)
  ultimately show ?thesis using f l by blast
qed

section \<open>Properties of the camera\<close>

subsection \<open>The fan-out\<close>

lemma length_push [simp]: "length (push x rs sid) = length rs"
  by (simp add: push_def)

lemma push_nth:
  "push x rs a ! t = (if t = a \<and> a < length rs then rs ! a @ [x] else rs ! t)"
  by (cases "t = a") (simp_all add: push_def list_update_beyond)

lemma length_foldl_push [simp]: "length (foldl (push x) rs sids) = length rs"
  by (induction sids arbitrary: rs) simp_all

lemma foldl_push_nth:
  "distinct sids \<Longrightarrow> \<forall>sid \<in> set sids. sid < length rs \<Longrightarrow>
   foldl (push x) rs sids ! t = (if t \<in> set sids then rs ! t @ [x] else rs ! t)"
proof (induction sids arbitrary: rs)
  case Nil
  then show ?case by simp
next
  case (Cons a sids)
  have "foldl (push x) (push x rs a) sids ! t =
      (if t \<in> set sids then push x rs a ! t @ [x] else push x rs a ! t)"
    using Cons.prems by (intro Cons.IH) simp_all
  then show ?case using Cons.prems by (auto simp: push_nth)
qed

lemma pushAll_fields [simp]:
  "codec (pushAll x s) = codec s"
  "childProcess (pushAll x s) = childProcess s"
  "streams (pushAll x s) = streams s"
  "processes (pushAll x s) = processes s"
  "frames (pushAll x s) = frames s"
  "frameOnce (pushAll x s) = frameOnce s"
  "images (pushAll x s) = images s"
  "length (readables (pushAll x s)) = length (readables s)"
  by (simp_all add: pushAll_def)

lemma pushAll_nth:
  "camera_inv s \<Longrightarrow>
   readables (pushAll x s) ! t = (if t \<in> set (streams s) then readables s ! t @ [x] else readables s ! t)"
  by (simp add: pushAll_def camera_inv_def foldl_push_nth)

subsection \<open>Emitting frames\<close>

lemma emitFrame_fields [simp]:
  "codec (emitFrame s img) = codec s"
  "childProcess (emitFrame s img) = childProcess s"
  "streams (emitFrame s img) = streams s"
  "processes (emitFrame s img) = processes s"
  "readables (emitFrame s img) = readables s"
  "frames (emitFrame s img) = frames s @ [img]"
  "frameOnce (emitFrame s img) = []"
  by (simp_all add: emitFrame_def)

lemma length_foldl_update [simp]: "length (foldl (\<lambda>im k. im[k := v]) im ks) = length im"
  by (induction ks arbitrary: im) simp_all

lemma foldl_update_nth:
  "k < length im \<Longrightarrow>
   foldl (\<lambda>im k. im[k := v]) im ks ! k = (if k \<in> set ks then v else im ! k)"
proof (induction ks arbitrary: im)
  case Nil
  then show ?case by simp
next
  case (Cons a ks)
  then show ?case by (cases "k = a") (auto simp: nth_list_update)
qed

lemma emitFrame_images:
  "length (images (emitFrame s img)) = length (images s)"
  "k < length (images s) \<Longrightarrow>
   images (emitFrame s img) ! k = (if k \<in> set (frameOnce s) then Some img else images s ! k)"
  by (simp_all add: emitFrame_def foldl_update_nth)

lemma emitFrames_fields [simp]:
  "codec (foldl emitFrame s imgs) = codec s"
  "childProcess (foldl emitFrame s imgs) = childProcess s"
  "streams (foldl emitFrame s imgs) = streams s"
  "processes (foldl emitFrame s imgs) = processes s"
  "readables (foldl emitFrame s imgs) = readables s"
  "frames (foldl emitFrame s imgs) = frames s @ imgs"
  "length (images (foldl emitFrame s imgs)) = length (images s)"
  by (induction imgs arbitrary: s) (simp_all add: emitFrame_images)

lemma emitFrames_frameOnce:
  "frameOnce (foldl emitFrame s imgs) = (if imgs = [] then frameOnce s else [])"
  by (induction imgs arbitrary: s) simp_all

lemma emitFrames_images:
  "k < length (images s) \<Longrightarrow>
   images (foldl emitFrame s imgs) ! k =
     (if imgs \<noteq> [] \<and> k \<in> set (frameOnce s) then Some (hd imgs) else images s ! k)"
proof (induction imgs arbitrary: s)
  case Nil
  then show ?case by simp
next
  case (Cons a imgs)
  have "k < length (images (emitFrame s a))" using Cons.prems by (simp add: emitFrame_images)
  from Cons.IH [OF this] Cons.prems show ?case
    by (simp add: emitFrame_images)
qed

subsection \<open>Runs of the data handlers\<close>

lemma deliver_fields [simp]:
  "codec (deliver data imgs s) = codec s"
  "childProcess (deliver data imgs s) = childProcess s"
  "streams (deliver data imgs s) = streams s"
  "processes (deliver data imgs s) = processes s"
  "frames (deliver data imgs s) = frames s @ imgs"
  "length (readables (deliver data imgs s)) = length (readables s)"
  "length (images (deliver data imgs s)) = length (images s)"
  "frameOnce (deliver data imgs s) = (if imgs = [] then frameOnce s else [])"
  by (simp_all add: deliver_def emitFrames_frameOnce)

lemma deliver_readables:
  "camera_inv s \<Longrightarrow> readables (deliver data imgs s) ! t =
     (if t \<in> set (streams s) then readables s ! t @ [Chunk data] else readables s ! t)"
  by (simp add: deliver_def pushAll_nth)

lemma deliver_images:
  "k < length (images s) \<Longrightarrow> images (deliver data imgs s) ! k =
     (if imgs \<noteq> [] \<and> k \<in> set (frameOnce s) then Some (hd imgs) else images s ! k)"
  by (simp add: deliver_def emitFrames_images)

lemma deliver_processes_update:
  "deliver data imgs (s\<lparr>processes := ps\<rparr>) = (deliver data imgs s)\<lparr>processes := ps\<rparr>"
proof -
  have e: "emitFrame (t\<lparr>processes := ps\<rparr>) img = (emitFrame t img)\<lparr>processes := ps\<rparr>" for t img
    by (simp add: emitFrame_def)
  have "foldl emitFrame (t\<lparr>processes := ps\<rparr>) imgs = (foldl emitFrame t imgs)\<lparr>processes := ps\<rparr>" for t
    by (induction imgs arbitrary: t) (simp_all add: e)
  moreover have "pushAll x (s\<lparr>processes := ps\<rparr>) = (pushAll x s)\<lparr>processes := ps\<rparr>" for x
    by (simp add: pushAll_def)
  ultimately show ?thesis by (simp add: deliver_def)
qed

lemma deliver_inv: "camera_inv s \<Longrightarrow> camera_inv (deliver data imgs s)"
  by (simp add: camera_inv_def)

lemma deliverAll_simps [simp]:
  "deliverAll data [] s = s"
  "deliverAll data (imgs # imgss) s = deliverAll data imgss (deliver data imgs s)"
  by (simp_all add: deliverAll_def)

lemma deliverAll_fields [simp]:
  "codec (deliverAll data imgss s) = codec s"
  "childProcess (deliverAll data imgss s) = childProcess s"
  "streams (deliverAll data imgss s) = streams s"
  "processes (deliverAll data imgss s) = processes s"
  "frames (deliverAll data imgss s) = frames s @ concat imgss"
  "length (readables (deliverAll data imgss s)) = length (readables s)"
  "length (images (deliverAll data imgss s)) = length (images s)"
  "frameOnce (deliverAll data imgss s) = (if concat imgss = [] then frameOnce s else [])"
  by (induction imgss arbitrary: s) simp_all

lemma deliverAll_inv: "camera_inv s \<Longrightarrow> camera_inv (deliverAll data imgss s)"
  by (induction imgss arbitrary: s) (simp_all add: deliver_inv)

lemma deliverAll_readables:
  "camera_inv s \<Longrightarrow> readables (deliverAll data imgss s) ! t =
     (if t \<in> set (streams s) then readables s ! t @ replicate (length imgss) (Chunk data)
      else readables s ! t)"
proof (induction imgss arbitrary: s)
  case Nil
  then show ?case by simp
next
  case (Cons imgs imgss)
  from Cons.IH [OF deliver_inv [OF Cons.prems], of data imgs] Cons.prems
  show ?case by (simp add: deliver_readables replicate_append_same)
qed

lemma deliverAll_images:
  "k < length (images s) \<Longrightarrow> images (deliverAll data imgss s) ! k =
     (if concat imgss \<noteq> [] \<and> k \<in> set (frameOnce s) then Some (hd (concat imgss))
      else images s ! k)"
proof (induction imgss arbitrary: s)
  case Nil
  then show ?case by simp
next
  case (Cons imgs imgss)
  have "k < length (images (deliver data imgs s))" using Cons.prems by simp
  from Cons.IH [OF this] Cons.prems show ?case
    by (cases "imgs = []") (simp_all add: deliver_images)
qed

lemma deliverAll_processes_update:
  "deliverAll data imgss (s\<lparr>processes := ps\<rparr>) = (deliverAll data imgss s)\<lparr>processes := ps\<rparr>"
  by (induction imgss arbitrary: s) (simp_all add: deliver_processes_update)

lemma handleChunk_total:
  assumes "sig \<noteq> [] \<or> c \<noteq> MJPEG"
  shows "\<exists>imgs buf'. handleChunk c sig buf data = Some (imgs, buf')"
proof (cases "c = MJPEG")
  case True
  with assms have "sig \<noteq> []" by simp
  from extractFrames_extends [OF this, of "buf @ data" "[]"] True
  show ?thesis by (auto simp: handleChunk_def)
next
  case False
  then show ?thesis by (simp add: handleChunk_def)
qed

lemma onData_effect:
  assumes "fst h \<noteq> [] \<or> codec s \<noteq> MJPEG"
  shows "\<exists>imgs buf'. onData data h s = Some ((fst h, buf'), deliver data imgs s) \<and>
     handleChunk (codec s) (fst h) (snd h) data = Some (imgs, buf')"
proof -
  from handleChunk_total [OF assms, of "snd h" data]
  obtain imgs buf' where "handleChunk (codec s) (fst h) (snd h) data = Some (imgs, buf')"
    by blast
  then show ?thesis by (simp add: onData_def deliver_def)
qed

lemma runHandlers_effect:
  assumes "\<forall>h \<in> set hs. fst h = jpegSignature"
  shows "\<exists>hs' imgss. runHandlers data hs s = Some (hs', deliverAll data imgss s) \<and>
     length imgss = length hs \<and> (\<forall>h \<in> set hs'. fst h = jpegSignature)"
  using assms
proof (induction hs arbitrary: s)
  case Nil
  have "runHandlers data [] s = Some ([], deliverAll data [] s)" by simp
  then show ?case by fastforce
next
  case (Cons h hs)
  have "fst h \<noteq> []" using Cons.prems by (simp add: jpegSignature_def)
  then obtain imgs buf' where o: "onData data h s = Some ((fst h, buf'), deliver data imgs s)"
    using onData_effect [of h s data] by blast
  from Cons.IH [of "deliver data imgs s"] Cons.prems
  obtain hs' imgss where r: "runHandlers data hs (deliver data imgs s)
        = Some (hs', deliverAll data imgss (deliver data imgs s))"
    and l: "length imgss = length hs" and g: "\<forall>h \<in> set hs'. fst h = jpegSignature"
    by auto
  have "runHandlers data (h # hs) s = Some ((fst h, buf') # hs', deliverAll data (imgs # imgss) s)"
    using o r by simp
  moreover have "length (imgs # imgss) = length (h # hs)" using l by simp
  moreover have "\<forall>x \<in> set ((fst h, buf') # hs'). fst x = jpegSignature"
    using g Cons.prems by simp
  ultimately show ?case by blast
qed

subsection \<open>Steps keep the invariant\<close>

lemma handlers_update:
  assumes "\<forall>p \<in> set ps. \<forall>h \<in> set (handlers p). fst h = jpegSignature"
    and "\<forall>h \<in> set (handlers v). fst h = jpegSignature"
  shows "\<forall>p \<in> set (ps[i := v]). \<forall>h \<in> set (handlers p). fst h = jpegSignature"
proof
  fix p assume "p \<in> set (ps[i := v])"
  then have "p = v \<or> p \<in> set ps" using set_update_subset_insert [of ps i v] by auto
  with assms show "\<forall>h \<in> set (handlers p). fst h = jpegSignature" by blast
qed

lemma camera_inv_processes:
  assumes "camera_inv s"
    and "\<forall>p \<in> set ps. \<forall>h \<in> set (handlers p). fst h = jpegSignature"
  shows "camera_inv (s\<lparr>processes := ps\<rparr>)" and "camera_inv (s\<lparr>childProcess := c, processes := ps\<rparr>)"
  using assms by (simp_all add: camera_inv_def)

lemma camera_inv_handlers:
  "camera_inv s \<Longrightarrow> \<forall>p \<in> set (processes s). \<forall>h \<in> set (handlers p). fst h = jpegSignature"
  by (simp add: camera_inv_def)

lemma newCamera_inv: "camera_inv (newCamera c)"
  by (simp add: camera_inv_def newCamera_def)

lemma startCapture_inv: "camera_inv s \<Longrightarrow> camera_inv (startCapture s)"
  unfolding startCapture_def
  by (rule camera_inv_processes) (auto dest: camera_inv_handlers)

lemma getJpegSignature_Inr: "getJpegSignature model = Inr sig \<Longrightarrow> sig = jpegSignature"
  by (simp add: getJpegSignature_def split: if_splits)

lemma resumeStart_inv:
  assumes "camera_inv s"
  shows "camera_inv (resumeStart call model s)"
proof (cases "call < length (processes s) \<and> awaitingSignature (processes s ! call)")
  case False
  then show ?thesis using assms by (auto simp: resumeStart_def)
next
  case True
  let ?ps = "(processes s)[call := (processes s ! call)\<lparr>awaitingSignature := False\<rparr>]"
  have c: "processes s ! call \<in> set (processes s)" using True by simp
  note h = camera_inv_handlers [OF assms]
  have a: "\<forall>p \<in> set ?ps. \<forall>h \<in> set (handlers p). fst h = jpegSignature"
    using h c by (intro handlers_update) auto
  have lps: "length ?ps = length (processes s)" by simp
  have rej: "camera_inv (s\<lparr>processes := ?ps[call := (?ps ! call)
      \<lparr>startPromise := settle (Rejected err) (startPromise (?ps ! call))\<rparr>]\<rparr>)" for err
  proof (rule camera_inv_processes(1) [OF assms], rule handlers_update [OF a])
    have "?ps ! call \<in> set ?ps" using True lps by (metis nth_mem)
    with a show "\<forall>h\<in>set (handlers ((?ps ! call)
        \<lparr>startPromise := settle (Rejected err) (startPromise (?ps ! call))\<rparr>)). fst h = jpegSignature"
      by simp
  qed
  show ?thesis
  proof (cases "getJpegSignature model")
    case (Inl err)
    then show ?thesis using True rej [of err]
      by (simp add: resumeStart_def Let_def)
  next
    case (Inr sig)
    then have sig: "sig = jpegSignature" by (rule getJpegSignature_Inr)
    show ?thesis
    proof (cases "childProcess s")
      case None
      then show ?thesis using True Inr rej [of TypeError]
        by (simp add: resumeStart_def Let_def)
    next
      case (Some pid)
      have "\<forall>p \<in> set (?ps[pid := (?ps ! pid)
          \<lparr>handlers := handlers (?ps ! pid) @ [(sig, [])],
           forwarders := Suc (forwarders (?ps ! pid))\<rparr>]).
          \<forall>h \<in> set (handlers p). fst h = jpegSignature"
      proof (cases "pid < length ?ps")
        case True
        then have "?ps ! pid \<in> set ?ps" by (metis nth_mem)
        with a sig have "\<forall>h\<in>set (handlers ((?ps ! pid)
            \<lparr>handlers := handlers (?ps ! pid) @ [(sig, [])],
           forwarders := Suc (forwarders (?ps ! pid))\<rparr>)). fst h = jpegSignature"
          by auto
        with a show ?thesis by (rule handlers_update)
      next
        case False
        then show ?thesis using a by (simp add: list_update_beyond)
      qed
      with assms have "camera_inv (s\<lparr>processes := ?ps[pid := (?ps ! pid)
          \<lparr>handlers := handlers (?ps ! pid) @ [(sig, [])],
           forwarders := Suc (forwarders (?ps ! pid))\<rparr>]\<rparr>)"
        by (rule camera_inv_processes(1))
      then show ?thesis using True Inr Some
        by (simp add: resumeStart_def Let_def)
    qed
  qed
qed


lemma processError_inv:
  assumes "camera_inv s"
  shows "camera_inv (processError pid s)"
proof (cases "pid < length (processes s) \<and> errorOnce (processes s ! pid)")
  case False
  then show ?thesis using assms by (auto simp: processError_def)
next
  case True
  then have "processes s ! pid \<in> set (processes s)" by simp
  with camera_inv_handlers [OF assms]
  have "\<forall>p \<in> set ((processes s)[pid := (processes s ! pid)
      \<lparr>startPromise := settle (Rejected CaptureStartFailed) (startPromise (processes s ! pid)),
       errorOnce := False\<rparr>]). \<forall>h \<in> set (handlers p). fst h = jpegSignature"
    by (intro handlers_update) auto
  with assms have "camera_inv (s\<lparr>processes := (processes s)[pid := (processes s ! pid)
      \<lparr>startPromise := settle (Rejected CaptureStartFailed) (startPromise (processes s ! pid)),
       errorOnce := False\<rparr>]\<rparr>)"
    by (rule camera_inv_processes(1))
  then show ?thesis using True by (simp add: processError_def)
qed

lemma pushAll_inv: "camera_inv s \<Longrightarrow> camera_inv (pushAll x s)"
  by (simp add: camera_inv_def)

lemma stopCapture_inv:
  assumes "camera_inv s"
  shows "camera_inv (stopCapture s)"
proof -
  have k: "camera_inv (s\<lparr>processes := (processes s)[pid := (processes s ! pid)\<lparr>killed := True\<rparr>]\<rparr>)"
    for pid
  proof (cases "pid < length (processes s)")
    case True
    then have "processes s ! pid \<in> set (processes s)" by simp
    with camera_inv_handlers [OF assms]
    have "\<forall>p \<in> set ((processes s)[pid := (processes s ! pid)\<lparr>killed := True\<rparr>]).
        \<forall>h \<in> set (handlers p). fst h = jpegSignature"
      by (intro handlers_update) auto
    with assms show ?thesis by (rule camera_inv_processes(1))
  next
    case False
    then show ?thesis using assms by (simp add: list_update_beyond)
  qed
  have "camera_inv ((pushAll EOF t)\<lparr>streams := []\<rparr>)" if "camera_inv t" for t
    using that by (simp add: camera_inv_def)
  then show ?thesis using assms k
    by (cases "childProcess s") (simp_all add: stopCapture_def)
qed

lemma createStream_inv: "camera_inv s \<Longrightarrow> camera_inv (snd (createStream s))"
  by (auto simp: camera_inv_def createStream_def less_Suc_eq)

lemma takeImage_inv: "camera_inv s \<Longrightarrow> takeImage s = Inr (k, s') \<Longrightarrow> camera_inv s'"
  by (auto simp: camera_inv_def takeImage_def less_Suc_eq split: if_splits)

lemma stdoutData_effect:
  assumes "camera_inv s"
  shows "\<exists>imgss ps. stdoutData pid data s = Some ((deliverAll data imgss s)\<lparr>processes := ps\<rparr>) \<and>
     length imgss =
       (if pid < length (processes s) then length (handlers (processes s ! pid)) else 0) \<and>
     length ps = length (processes s) \<and>
     (\<forall>p \<in> set ps. \<forall>h \<in> set (handlers p). fst h = jpegSignature)"
proof (cases "pid < length (processes s)")
  case False
  then have "stdoutData pid data s = Some ((deliverAll data [] s)\<lparr>processes := processes s\<rparr>)"
    by (simp add: stdoutData_def)
  moreover have "length ([] :: byte list list list) =
      (if pid < length (processes s) then length (handlers (processes s ! pid)) else 0)"
    using False by simp
  ultimately show ?thesis using camera_inv_handlers [OF assms] by blast
next
  case True
  let ?p = "processes s ! pid"
  let ?p1 = "if dataOnce ?p
     then ?p\<lparr>startPromise := settle Resolved (startPromise ?p), dataOnce := False\<rparr> else ?p"
  let ?P1 = "(processes s)[pid := ?p1]"
  let ?s1 = "s\<lparr>processes := ?P1\<rparr>"
  note h = camera_inv_handlers [OF assms]
  have pin: "?p \<in> set (processes s)" using True by simp
  have hp1: "handlers ?p1 = handlers ?p" by simp
  have good: "\<forall>h \<in> set (handlers ?p1). fst h = jpegSignature" using h pin by simp
  from runHandlers_effect [OF good, of data ?s1]
  obtain hs' imgss where r: "runHandlers data (handlers ?p1) ?s1 = Some (hs', deliverAll data imgss ?s1)"
    and l: "length imgss = length (handlers ?p1)" and g: "\<forall>h \<in> set hs'. fst h = jpegSignature"
    by blast
  let ?ps = "?P1[pid := ?p1\<lparr>handlers := hs'\<rparr>]"
  have d: "deliverAll data imgss ?s1 = (deliverAll data imgss s)\<lparr>processes := ?P1\<rparr>"
    by (rule deliverAll_processes_update)
  have "stdoutData pid data s = Some ((deliverAll data imgss ?s1)
      \<lparr>processes := (processes (deliverAll data imgss ?s1))
          [pid := (processes (deliverAll data imgss ?s1) ! pid)\<lparr>handlers := hs'\<rparr>]\<rparr>)"
    using True r by (simp add: stdoutData_def Let_def)
  also have "\<dots> = Some ((deliverAll data imgss s)\<lparr>processes := ?ps\<rparr>)"
    using True by (simp add: d)
  finally have e: "stdoutData pid data s = Some ((deliverAll data imgss s)\<lparr>processes := ?ps\<rparr>)" .
  have P1good: "\<forall>p \<in> set ?P1. \<forall>h \<in> set (handlers p). fst h = jpegSignature"
    using h good by (rule handlers_update)
  have "\<forall>h \<in> set (handlers (?p1\<lparr>handlers := hs'\<rparr>)). fst h = jpegSignature"
    using g by simp
  with P1good have "\<forall>p \<in> set ?ps. \<forall>h \<in> set (handlers p). fst h = jpegSignature"
    by (rule handlers_update)
  moreover have "length imgss =
      (if pid < length (processes s) then length (handlers (processes s ! pid)) else 0)"
    using True l hp1 by simp
  moreover have "length ?ps = length (processes s)" by simp
  ultimately show ?thesis using e by blast
qed

lemma stdoutData_inv:
  assumes "camera_inv s"
  shows "\<exists>s'. stdoutData pid data s = Some s' \<and> camera_inv s'"
proof -
  from stdoutData_effect [OF assms, of pid data]
  obtain imgss ps where e: "stdoutData pid data s = Some ((deliverAll data imgss s)\<lparr>processes := ps\<rparr>)"
    and g: "\<forall>p \<in> set ps. \<forall>h \<in> set (handlers p). fst h = jpegSignature" by blast
  have "camera_inv ((deliverAll data imgss s)\<lparr>processes := ps\<rparr>)"
    using deliverAll_inv [OF assms] g by (rule camera_inv_processes(1))
  with e show ?thesis by blast
qed

lemma step_inv:
  assumes "camera_inv s"
  shows "\<exists>s'. step s e = Some s' \<and> camera_inv s'"
proof (cases e)
  case (StdoutData pid data)
  then show ?thesis using stdoutData_inv [OF assms] by simp
next
  case TakeImage
  then show ?thesis using assms takeImage_inv [OF assms]
    by (cases "takeImage s") auto
qed (simp_all add: assms startCapture_inv resumeStart_inv processError_inv stopCapture_inv
      createStream_inv)

lemma run_inv:
  "camera_inv s \<Longrightarrow> \<exists>s'. run s evs = Some s' \<and> camera_inv s'"
proof (induction evs arbitrary: s)
  case Nil
  then show ?case by simp
next
  case (Cons e evs)
  from step_inv [OF Cons.prems, of e] obtain s1 where "step s e = Some s1" "camera_inv s1"
    by blast
  with Cons.IH [of s1] show ?case by simp
qed

subsection \<open>Starting\<close>

lemma step_processes_length:
  assumes "camera_inv s" and "step s e = Some s'"
  shows "length (processes s') = length (processes s) + (if e = StartCapture then 1 else 0)"
proof (cases e)
  case StartCapture
  then show ?thesis using assms(2) by (auto simp: startCapture_def)
next
  case (SignatureResolved call model)
  then show ?thesis using assms(2)
    by (auto simp: resumeStart_def Let_def split: sum.splits option.splits)
next
  case (ProcessError pid)
  then show ?thesis using assms(2) by (auto simp: processError_def)
next
  case (StdoutData pid data)
  from stdoutData_effect [OF assms(1), of pid data] StdoutData assms(2)
  show ?thesis by auto
next
  case StopCapture
  then show ?thesis using assms(2)
    by (auto simp: stopCapture_def split: option.splits)
next
  case CreateStream
  then show ?thesis using assms(2) by (auto simp: createStream_def)
next
  case TakeImage
  then show ?thesis using assms(2)
    by (auto simp: takeImage_def split: if_splits)
qed

lemma run_processes_length:
  "camera_inv s \<Longrightarrow> run s evs = Some s' \<Longrightarrow>
   length (processes s') = length (processes s) + count_list evs StartCapture"
proof (induction evs arbitrary: s)
  case Nil
  then show ?case by simp
next
  case (Cons e evs)
  from step_inv [OF Cons.prems(1), of e] obtain s1 where s1: "step s e = Some s1" "camera_inv s1"
    by blast
  with Cons.prems(2) have "run s1 evs = Some s'" by simp
  from Cons.IH [OF s1(2) this] step_processes_length [OF Cons.prems(1) s1(1)]
  show ?case by simp
qed

subsection \<open>What a step does to the Readables\<close>

lemma startCapture_fields [simp]:
  "codec (startCapture s) = codec s"
  "streams (startCapture s) = streams s"
  "readables (startCapture s) = readables s"
  "frames (startCapture s) = frames s"
  "frameOnce (startCapture s) = frameOnce s"
  "images (startCapture s) = images s"
  by (simp_all add: startCapture_def)

lemma resumeStart_fields [simp]:
  "codec (resumeStart call model s) = codec s"
  "childProcess (resumeStart call model s) = childProcess s"
  "streams (resumeStart call model s) = streams s"
  "readables (resumeStart call model s) = readables s"
  "frames (resumeStart call model s) = frames s"
  "frameOnce (resumeStart call model s) = frameOnce s"
  "images (resumeStart call model s) = images s"
  by (simp_all add: resumeStart_def Let_def split: sum.split option.split)

lemma processError_fields [simp]:
  "codec (processError pid s) = codec s"
  "childProcess (processError pid s) = childProcess s"
  "streams (processError pid s) = streams s"
  "readables (processError pid s) = readables s"
  "frames (processError pid s) = frames s"
  "frameOnce (processError pid s) = frameOnce s"
  "images (processError pid s) = images s"
  by (simp_all add: processError_def)

lemma stopCapture_fields [simp]:
  "codec (stopCapture s) = codec s"
  "childProcess (stopCapture s) = childProcess s"
  "streams (stopCapture s) = []"
  "length (readables (stopCapture s)) = length (readables s)"
  "frames (stopCapture s) = frames s"
  "frameOnce (stopCapture s) = frameOnce s"
  "images (stopCapture s) = images s"
  by (simp_all add: stopCapture_def Let_def split: option.split)

lemma createStream_fields [simp]:
  "codec (snd (createStream s)) = codec s"
  "childProcess (snd (createStream s)) = childProcess s"
  "processes (snd (createStream s)) = processes s"
  "streams (snd (createStream s)) = streams s @ [length (readables s)]"
  "readables (snd (createStream s)) = readables s @ [[]]"
  "frames (snd (createStream s)) = frames s"
  "frameOnce (snd (createStream s)) = frameOnce s"
  "images (snd (createStream s)) = images s"
  "fst (createStream s) = length (readables s)"
  by (simp_all add: createStream_def)

text \<open>
  A step other than a stop keeps the registry or extends it, and appends to every
  registered Readable the chunks it dispatches; a stop appends the end of the stream.
\<close>

lemma step_readables:
  assumes inv: "camera_inv s" and st: "step s e = Some s'"
  shows "length (readables s) \<le> length (readables s')"
    and "e \<noteq> StopCapture \<Longrightarrow> set (streams s) \<subseteq> set (streams s')"
    and "e \<noteq> StopCapture \<Longrightarrow> set (streams s') \<subseteq> set (streams s) \<union> {length (readables s)..}"
    and "t < length (readables s) \<Longrightarrow> readables s' ! t =
      (if t \<in> set (streams s)
       then readables s ! t @ (if e = StopCapture then [EOF] else map Chunk (dispatchedBy s e))
       else readables s ! t)"
    and "e = StopCapture \<Longrightarrow> streams s' = []"
    and "e \<noteq> CreateStream \<Longrightarrow> length (readables s') = length (readables s)"
proof -
  have "length (readables s) \<le> length (readables s') \<and>
    (e \<noteq> StopCapture \<longrightarrow> set (streams s) \<subseteq> set (streams s') \<and>
       set (streams s') \<subseteq> set (streams s) \<union> {length (readables s)..}) \<and>
    (t < length (readables s) \<longrightarrow> readables s' ! t =
      (if t \<in> set (streams s)
       then readables s ! t @ (if e = StopCapture then [EOF] else map Chunk (dispatchedBy s e))
       else readables s ! t)) \<and>
    (e = StopCapture \<longrightarrow> streams s' = []) \<and>
    (e \<noteq> CreateStream \<longrightarrow> length (readables s') = length (readables s))"
  proof (cases e)
    case StartCapture
    then show ?thesis using st by (auto simp: dispatchedBy_def)
  next
    case (SignatureResolved call model)
    then show ?thesis using st by (auto simp: dispatchedBy_def)
  next
    case (ProcessError pid)
    then show ?thesis using st by (auto simp: dispatchedBy_def)
  next
    case (StdoutData pid data)
    from stdoutData_effect [OF inv, of pid data] StdoutData st
    obtain imgss ps where s': "s' = (deliverAll data imgss s)\<lparr>processes := ps\<rparr>"
      and l: "length imgss =
        (if pid < length (processes s) then length (handlers (processes s ! pid)) else 0)"
      by auto
    have "map Chunk (dispatchedBy s e) = replicate (length imgss) (Chunk data)"
      using StdoutData l by (simp add: dispatchedBy_def)
    then show ?thesis using StdoutData s' by (simp add: deliverAll_readables [OF inv])
  next
    case StopCapture
    have "readables (stopCapture s) ! t =
        (if t \<in> set (streams s) then readables s ! t @ [EOF] else readables s ! t)"
    proof (cases "childProcess s")
      case None
      then show ?thesis by (simp add: stopCapture_def pushAll_nth [OF inv])
    next
      case (Some pid)
      let ?s1 = "s\<lparr>processes := (processes s)[pid := (processes s ! pid)\<lparr>killed := True\<rparr>]\<rparr>"
      have "distinct (streams ?s1)" "\<forall>sid \<in> set (streams ?s1). sid < length (readables ?s1)"
        using inv by (simp_all add: camera_inv_def)
      then have "readables (pushAll EOF ?s1) ! t =
          (if t \<in> set (streams ?s1) then readables ?s1 ! t @ [EOF] else readables ?s1 ! t)"
        by (simp add: pushAll_def foldl_push_nth)
      then show ?thesis using Some by (simp add: stopCapture_def)
    qed
    then show ?thesis using StopCapture st by auto
  next
    case CreateStream
    then show ?thesis using st
      by (auto simp: dispatchedBy_def nth_append)
  next
    case TakeImage
    then show ?thesis using st
      by (auto simp: takeImage_def dispatchedBy_def split: if_splits)
  qed
  then show "length (readables s) \<le> length (readables s')"
    and "e \<noteq> StopCapture \<Longrightarrow> set (streams s) \<subseteq> set (streams s')"
    and "e \<noteq> StopCapture \<Longrightarrow> set (streams s') \<subseteq> set (streams s) \<union> {length (readables s)..}"
    and "t < length (readables s) \<Longrightarrow> readables s' ! t =
      (if t \<in> set (streams s)
       then readables s ! t @ (if e = StopCapture then [EOF] else map Chunk (dispatchedBy s e))
       else readables s ! t)"
    and "e = StopCapture \<Longrightarrow> streams s' = []"
    and "e \<noteq> CreateStream \<Longrightarrow> length (readables s') = length (readables s)"
    by blast+
qed

lemma step_prefix:
  assumes "camera_inv s" and "step s e = Some s'" and "t < length (readables s)"
  shows "prefix (readables s ! t) (readables s' ! t)"
  using step_readables(4) [OF assms] by simp

lemma run_prefix:
  "camera_inv s \<Longrightarrow> run s evs = Some s' \<Longrightarrow> t < length (readables s) \<Longrightarrow>
   t < length (readables s') \<and> prefix (readables s ! t) (readables s' ! t)"
proof (induction evs arbitrary: s)
  case Nil
  then show ?case by simp
next
  case (Cons e evs)
  from step_inv [OF Cons.prems(1), of e] obtain s1 where s1: "step s e = Some s1" "camera_inv s1"
    by blast
  with Cons.prems(2) have r: "run s1 evs = Some s'" by simp
  have t1: "t < length (readables s1)"
    using step_readables(1) [OF Cons.prems(1) s1(1)] Cons.prems(3) by simp
  from Cons.IH [OF s1(2) r t1] step_prefix [OF Cons.prems(1) s1(1) Cons.prems(3)]
  show ?case by (auto intro: prefix_order.trans)
qed

subsection \<open>The end of the stream\<close>

lemma newCamera_eof_inv: "eof_inv (newCamera c)"
  by (simp add: eof_inv_def newCamera_def)

lemma step_eof_inv:
  assumes inv: "camera_inv s" and eof: "eof_inv s" and st: "step s e = Some s'"
  shows "eof_inv s'"
  unfolding eof_inv_def
proof (intro allI impI)
  fix t assume t': "t < length (readables s')"
  note r = step_readables [OF inv st]
  show "if t \<in> set (streams s') then EOF \<notin> set (readables s' ! t)
     else \<exists>xs. readables s' ! t = xs @ [EOF] \<and> EOF \<notin> set xs"
  proof (cases "t < length (readables s)")
    case True
    note old = eof [unfolded eof_inv_def, rule_format, OF True]
    show ?thesis
    proof (cases "e = StopCapture")
      case True
      then show ?thesis using r(4) [OF \<open>t < length (readables s)\<close>] r(5) old
        by (auto split: if_splits)
    next
      case False
      have "t \<in> set (streams s') \<longleftrightarrow> t \<in> set (streams s)"
        using r(2,3) [OF False] \<open>t < length (readables s)\<close> by auto
      then show ?thesis using r(4) [OF \<open>t < length (readables s)\<close>] False old
        by (auto split: if_splits)
    qed
  next
    case False
    then have c: "e = CreateStream" using r(6) t' by auto
    then have "s' = snd (createStream s)" using st by simp
    then show ?thesis using False t' by (auto simp: nth_append less_Suc_eq)
  qed
qed

lemma run_eof_inv:
  "camera_inv s \<Longrightarrow> eof_inv s \<Longrightarrow> run s evs = Some s' \<Longrightarrow> eof_inv s'"
proof (induction evs arbitrary: s)
  case Nil
  then show ?case by simp
next
  case (Cons e evs)
  from step_inv [OF Cons.prems(1), of e] obtain s1 where s1: "step s e = Some s1" "camera_inv s1"
    by blast
  with Cons.prems(3) have r: "run s1 evs = Some s'" by simp
  from Cons.IH [OF s1(2) step_eof_inv [OF Cons.prems(1,2) s1(1)] r] show ?case .
qed

lemma stopCapture_readables:
  assumes "camera_inv s" and "t < length (readables s)"
  shows "readables (stopCapture s) ! t =
     (if t \<in> set (streams s) then readables s ! t @ [EOF] else readables s ! t)"
  using step_readables(4) [OF assms(1) _ assms(2), of StopCapture "stopCapture s"] by simp

lemma stopCapture_twice: "readables (stopCapture (stopCapture s)) = readables (stopCapture s)"
proof -
  have "readables (stopCapture t) = readables t" if "streams t = []" for t
    using that by (simp add: stopCapture_def pushAll_def Let_def split: option.split)
  then show ?thesis by simp
qed

lemma stopCapture_eof_inv:
  assumes "camera_inv s" and "eof_inv s"
  shows "eof_inv (stopCapture s)"
  using step_eof_inv [OF assms, of StopCapture "stopCapture s"] by simp

lemma count_single_EOF: "EOF \<notin> set xs \<Longrightarrow> count_list (xs @ [EOF]) EOF = 1"
  by (simp add: count_list_0_iff)

subsection \<open>The chunks a stream receives\<close>

lemma run_dispatched:
  "camera_inv s \<Longrightarrow> StopCapture \<notin> set evs \<Longrightarrow>
   \<exists>s'. run s evs = Some s' \<and>
     (\<forall>t \<in> set (streams s). readables s' ! t = readables s ! t @ map Chunk (dispatched s evs))"
proof (induction evs arbitrary: s)
  case Nil
  then show ?case by simp
next
  case (Cons e evs)
  from step_inv [OF Cons.prems(1), of e] obtain s1 where s1: "step s e = Some s1" "camera_inv s1"
    by blast
  have ne: "e \<noteq> StopCapture" and rest: "StopCapture \<notin> set evs" using Cons.prems(2) by auto
  from Cons.IH [OF s1(2) rest] obtain s' where r: "run s1 evs = Some s'"
    and d: "\<forall>t \<in> set (streams s1). readables s' ! t = readables s1 ! t @ map Chunk (dispatched s1 evs)"
    by blast
  note sr = step_readables [OF Cons.prems(1) s1(1)]
  have "readables s' ! t = readables s ! t @ map Chunk (dispatched s (e # evs))"
    if t: "t \<in> set (streams s)" for t
  proof -
    have "t < length (readables s)" using Cons.prems(1) t by (simp add: camera_inv_def)
    from sr(4) [OF this] t ne
    have "readables s1 ! t = readables s ! t @ map Chunk (dispatchedBy s e)" by simp
    moreover have "t \<in> set (streams s1)" using sr(2) [OF ne] t by blast
    ultimately show ?thesis using d s1(1) by simp
  qed
  moreover have "run s (e # evs) = Some s'" using s1(1) r by simp
  ultimately show ?case by blast
qed

lemma example_plain_run:
  "run (newCamera H264)
     [CreateStream, StartCapture, SignatureResolved 0 ''BCM2711'', StdoutData 0 [1]] =
   Some \<lparr>codec = H264, childProcess = Some 0, streams = [0],
     processes = [\<lparr>killed = False, startPromise = Resolved, errorOnce = True,
       dataOnce = False, awaitingSignature = False, handlers = [(jpegSignature, [])], forwarders = 1\<rparr>],
     readables = [[Chunk [1]]], frames = [], frameOnce = [], images = []\<rparr>"
  by code_simp

lemma example_plain_dispatched:
  "dispatched (snd (createStream \<lparr>codec = H264, childProcess = Some 0, streams = [0],
     processes = [\<lparr>killed = False, startPromise = Resolved, errorOnce = True,
       dataOnce = False, awaitingSignature = False, handlers = [(jpegSignature, [])], forwarders = 1\<rparr>],
     readables = [[Chunk [1]]], frames = [], frameOnce = [], images = []\<rparr>))
     [StdoutData 0 [2], CreateStream, StdoutData 0 [3]] = [[2], [3]]"
  by code_simp

subsection \<open>Plain mode\<close>






subsection \<open>Promises of takeImage\<close>

lemma step_codec:
  assumes "camera_inv s" and "step s e = Some s'"
  shows "codec s' = codec s"
proof (cases e)
  case (StdoutData pid data)
  from stdoutData_effect [OF assms(1), of pid data] StdoutData assms(2)
  show ?thesis by auto
next
  case TakeImage
  then show ?thesis using assms(2) by (auto simp: takeImage_def split: if_splits)
qed (use assms(2) in auto)

lemma run_codec:
  "camera_inv s \<Longrightarrow> run s evs = Some s' \<Longrightarrow> codec s' = codec s"
proof (induction evs arbitrary: s)
  case Nil
  then show ?case by simp
next
  case (Cons e evs)
  from step_inv [OF Cons.prems(1), of e] obtain s1 where s1: "step s e = Some s1" "camera_inv s1"
    by blast
  with Cons.prems(2) have "run s1 evs = Some s'" by simp
  from Cons.IH [OF s1(2) this] step_codec [OF Cons.prems(1) s1(1)] show ?case by simp
qed

lemma step_images:
  assumes inv: "camera_inv s" and st: "step s e = Some s'"
  shows "\<exists>new. frames s' = frames s @ new \<and> length (images s) \<le> length (images s') \<and>
     (\<forall>k < length (images s).
        (k \<in> set (frameOnce s') \<longleftrightarrow> k \<in> set (frameOnce s) \<and> new = []) \<and>
        images s' ! k =
          (if new \<noteq> [] \<and> k \<in> set (frameOnce s) then Some (hd new) else images s ! k))"
proof (cases e)
  case (StdoutData pid data)
  from stdoutData_effect [OF inv, of pid data] StdoutData st
  obtain imgss ps where s': "s' = (deliverAll data imgss s)\<lparr>processes := ps\<rparr>" by auto
  have "frames s' = frames s @ concat imgss" by (simp add: s')
  moreover have "length (images s) \<le> length (images s')" by (simp add: s')
  moreover have "\<forall>k < length (images s).
        (k \<in> set (frameOnce s') \<longleftrightarrow> k \<in> set (frameOnce s) \<and> concat imgss = []) \<and>
        images s' ! k =
          (if concat imgss \<noteq> [] \<and> k \<in> set (frameOnce s) then Some (hd (concat imgss))
           else images s ! k)"
    by (auto simp: s' deliverAll_images)
  ultimately show ?thesis by blast
next
  case TakeImage
  have "frames s' = frames s @ []" using TakeImage st
    by (auto simp: takeImage_def split: if_splits)
  moreover have "length (images s) \<le> length (images s')" using TakeImage st
    by (auto simp: takeImage_def split: if_splits)
  moreover have "\<forall>k < length (images s).
        (k \<in> set (frameOnce s') \<longleftrightarrow> k \<in> set (frameOnce s) \<and> ([] :: byte list list) = []) \<and>
        images s' ! k =
          (if ([] :: byte list list) \<noteq> [] \<and> k \<in> set (frameOnce s) then Some (hd [])
           else images s ! k)"
    using TakeImage st by (auto simp: takeImage_def nth_append split: if_splits)
  ultimately show ?thesis by blast
qed (use st in \<open>auto intro!: exI [of _ "[]"]\<close>)


lemma run_images:
  "camera_inv s \<Longrightarrow> run s evs = Some s' \<Longrightarrow> k < length (images s) \<Longrightarrow>
   \<exists>new. frames s' = frames s @ new \<and> k < length (images s') \<and>
     (k \<in> set (frameOnce s') \<longleftrightarrow> k \<in> set (frameOnce s) \<and> new = []) \<and>
     images s' ! k =
       (if new \<noteq> [] \<and> k \<in> set (frameOnce s) then Some (hd new) else images s ! k)"
proof (induction evs arbitrary: s)
  case Nil
  have "frames s = frames s @ []" by simp
  with Nil show ?case by fastforce
next
  case (Cons e evs)
  from step_inv [OF Cons.prems(1), of e] obtain s1 where s1: "step s e = Some s1" "camera_inv s1"
    by blast
  with Cons.prems(2) have r: "run s1 evs = Some s'" by simp
  from step_images [OF Cons.prems(1) s1(1)] Cons.prems(3)
  obtain new1 where f1: "frames s1 = frames s @ new1" and k1: "k < length (images s1)"
    and o1: "k \<in> set (frameOnce s1) \<longleftrightarrow> k \<in> set (frameOnce s) \<and> new1 = []"
    and i1: "images s1 ! k =
      (if new1 \<noteq> [] \<and> k \<in> set (frameOnce s) then Some (hd new1) else images s ! k)"
    by fastforce
  from Cons.IH [OF s1(2) r k1]
  obtain new2 where f2: "frames s' = frames s1 @ new2" and k2: "k < length (images s')"
    and o2: "k \<in> set (frameOnce s') \<longleftrightarrow> k \<in> set (frameOnce s1) \<and> new2 = []"
    and i2: "images s' ! k =
      (if new2 \<noteq> [] \<and> k \<in> set (frameOnce s1) then Some (hd new2) else images s1 ! k)"
    by blast
  have "frames s' = frames s @ (new1 @ new2)" using f1 f2 by simp
  moreover have "k \<in> set (frameOnce s') \<longleftrightarrow> k \<in> set (frameOnce s) \<and> new1 @ new2 = []"
    using o1 o2 by auto
  moreover have "images s' ! k =
      (if new1 @ new2 \<noteq> [] \<and> k \<in> set (frameOnce s) then Some (hd (new1 @ new2))
       else images s ! k)"
    using o1 i1 i2 by (cases "new1 = []") auto
  ultimately show ?case using k2 by blast
qed

lemma example_mjpeg_run:
  "run (newCamera MJPEG)
     [StartCapture, SignatureResolved 0 ''BCM2711'',
      StdoutData 0 (jpegSignature @ [1] @ jpegSignature)] =
   Some \<lparr>codec = MJPEG, childProcess = Some 0, streams = [],
     processes = [\<lparr>killed = False, startPromise = Resolved, errorOnce = True,
       dataOnce = False, awaitingSignature = False,
       handlers = [(jpegSignature, jpegSignature)],
       forwarders = 1\<rparr>],
     readables = [], frames = [jpegSignature @ [1]], frameOnce = [], images = []\<rparr>"
  by code_simp

lemma example_mjpeg_after:
  "run \<lparr>codec = MJPEG, childProcess = Some 0, streams = [],
     processes = [\<lparr>killed = False, startPromise = Resolved, errorOnce = True,
       dataOnce = False, awaitingSignature = False,
       handlers = [(jpegSignature, jpegSignature)],
       forwarders = 1\<rparr>],
     readables = [], frames = [jpegSignature @ [1]], frameOnce = [0], images = [None]\<rparr>
     [StdoutData 0 ([2] @ jpegSignature), TakeImage, StdoutData 0 ([3] @ jpegSignature)] =
   Some \<lparr>codec = MJPEG, childProcess = Some 0, streams = [],
     processes = [\<lparr>killed = False, startPromise = Resolved, errorOnce = True,
       dataOnce = False, awaitingSignature = False,
       handlers = [(jpegSignature, jpegSignature)],
       forwarders = 1\<rparr>],
     readables = [],
     frames = [jpegSignature @ [1], jpegSignature @ [2], jpegSignature @ [3]],
     frameOnce = [],
     images = [Some (jpegSignature @ [2]), Some (jpegSignature @ [3])]\<rparr>"
  by code_simp

subsection \<open>The handle\<close>

lemma step_childProcess:
  assumes "camera_inv s" and "step s e = Some s'"
  shows "childProcess s' =
     (if e = StartCapture then Some (length (processes s)) else childProcess s)"
proof (cases e)
  case StartCapture
  then show ?thesis using assms(2) by (auto simp: startCapture_def)
next
  case (StdoutData pid data)
  from stdoutData_effect [OF assms(1), of pid data] StdoutData assms(2)
  show ?thesis by auto
next
  case TakeImage
  then show ?thesis using assms(2) by (auto simp: takeImage_def split: if_splits)
qed (use assms(2) in auto)

lemma run_childProcess:
  "camera_inv s \<Longrightarrow> run s evs = Some s' \<Longrightarrow>
   childProcess s = (if processes s = [] then None else Some (length (processes s) - 1)) \<Longrightarrow>
   childProcess s' = (if processes s' = [] then None else Some (length (processes s') - 1))"
proof (induction evs arbitrary: s)
  case Nil
  then show ?case by simp
next
  case (Cons e evs)
  from step_inv [OF Cons.prems(1), of e] obtain s1 where s1: "step s e = Some s1" "camera_inv s1"
    by blast
  with Cons.prems(2) have r: "run s1 evs = Some s'" by simp
  have "childProcess s1 = (if processes s1 = [] then None else Some (length (processes s1) - 1))"
    using step_childProcess [OF Cons.prems(1) s1(1)]
      step_processes_length [OF Cons.prems(1) s1(1)] Cons.prems(3)
    by (auto split: if_splits)
  from Cons.IH [OF s1(2) r this] show ?case .
qed

lemma stopCapture_processes:
  "processes (stopCapture s) =
     (case childProcess s of
        None \<Rightarrow> processes s
      | Some pid \<Rightarrow> (processes s)[pid := (processes s ! pid)\<lparr>killed := True\<rparr>])"
  by (simp add: stopCapture_def Let_def split: option.split)

subsection \<open>The promise of a suspended call\<close>

lemma all_update:
  assumes "\<forall>p \<in> set ps. Q p" and "Q v"
  shows "\<forall>p \<in> set (ps[i := v]). Q p"
proof
  fix p assume "p \<in> set (ps[i := v])"
  then have "p = v \<or> p \<in> set ps" using set_update_subset_insert [of ps i v] by auto
  with assms show "Q p" by blast
qed

lemma all_update_nth:
  assumes "\<forall>p \<in> set ps. Q p" and "i < length ps \<Longrightarrow> Q (ps ! i) \<Longrightarrow> Q v"
  shows "\<forall>p \<in> set (ps[i := v]). Q p"
proof (cases "i < length ps")
  case True
  then have "Q (ps ! i)" using assms(1) by simp
  with assms True show ?thesis by (intro all_update) simp_all
next
  case False
  then show ?thesis using assms(1) by (simp add: list_update_beyond)
qed

lemma settle_not_Pending [simp]: "outcome \<noteq> Pending \<Longrightarrow> settle outcome p \<noteq> Pending"
  by (simp add: settle_def)

lemma stdoutData_processes:
  assumes "camera_inv s" and "stdoutData pid data s = Some s'"
  shows "\<exists>hs. processes s' =
     (if pid < length (processes s)
      then (processes s)[pid :=
        (if dataOnce (processes s ! pid)
         then (processes s ! pid)\<lparr>startPromise := settle Resolved (startPromise (processes s ! pid)),
                dataOnce := False\<rparr>
         else processes s ! pid)\<lparr>handlers := hs\<rparr>]
      else processes s)"
proof (cases "pid < length (processes s)")
  case False
  then show ?thesis using assms(2) by (simp add: stdoutData_def)
next
  case True
  let ?p = "processes s ! pid"
  let ?p1 = "if dataOnce ?p
     then ?p\<lparr>startPromise := settle Resolved (startPromise ?p), dataOnce := False\<rparr> else ?p"
  let ?s1 = "s\<lparr>processes := (processes s)[pid := ?p1]\<rparr>"
  have "?p \<in> set (processes s)" using True by simp
  then have good: "\<forall>h \<in> set (handlers ?p1). fst h = jpegSignature"
    using camera_inv_handlers [OF assms(1)] by simp
  from runHandlers_effect [OF good, of data ?s1]
  obtain hs' imgss where r: "runHandlers data (handlers ?p1) ?s1 = Some (hs', deliverAll data imgss ?s1)"
    by blast
  have "s' = (deliverAll data imgss ?s1)
      \<lparr>processes := (processes (deliverAll data imgss ?s1))
          [pid := (processes (deliverAll data imgss ?s1) ! pid)\<lparr>handlers := hs'\<rparr>]\<rparr>"
    using True r assms(2) by (simp add: stdoutData_def Let_def)
  then have "processes s' = (processes s)[pid := ?p1\<lparr>handlers := hs'\<rparr>]"
    using True by simp
  then show ?thesis using True by auto
qed

lemma step_pending:
  assumes inv: "camera_inv s" and st: "step s e = Some s'"
    and a: "\<forall>p \<in> set (processes s). awaitingSignature p \<longrightarrow>
        (startPromise p = Pending) = (dataOnce p \<and> errorOnce p)"
  shows "\<forall>p \<in> set (processes s'). awaitingSignature p \<longrightarrow>
        (startPromise p = Pending) = (dataOnce p \<and> errorOnce p)"
proof (cases e)
  case StartCapture
  then show ?thesis using st a by (auto simp: startCapture_def)
next
  case (SignatureResolved call model)
  show ?thesis
  proof (cases "call < length (processes s) \<and> awaitingSignature (processes s ! call)")
    case False
    then show ?thesis using SignatureResolved st a by (auto simp: resumeStart_def)
  next
    case True
    let ?ps = "(processes s)[call := (processes s ! call)\<lparr>awaitingSignature := False\<rparr>]"
    have b: "\<forall>p \<in> set ?ps. awaitingSignature p \<longrightarrow>
        (startPromise p = Pending) = (dataOnce p \<and> errorOnce p)"
      using a by (rule all_update) simp
    have rej: "\<forall>p \<in> set (?ps[call := (?ps ! call)
        \<lparr>startPromise := settle (Rejected err) (startPromise (?ps ! call))\<rparr>]).
        awaitingSignature p \<longrightarrow> (startPromise p = Pending) = (dataOnce p \<and> errorOnce p)" for err
      using b by (rule all_update) (use True in simp)
    have reg: "\<forall>p \<in> set (?ps[pid := (?ps ! pid)
        \<lparr>handlers := hs, forwarders := n\<rparr>]).
        awaitingSignature p \<longrightarrow> (startPromise p = Pending) = (dataOnce p \<and> errorOnce p)"
      for pid hs n
      using b by (rule all_update_nth) simp
    have "processes s' = (case getJpegSignature model of
        Inl err \<Rightarrow> ?ps[call := (?ps ! call)
          \<lparr>startPromise := settle (Rejected err) (startPromise (?ps ! call))\<rparr>]
      | Inr jpegSig \<Rightarrow> (case childProcess s of
          None \<Rightarrow> ?ps[call := (?ps ! call)
            \<lparr>startPromise := settle (Rejected TypeError) (startPromise (?ps ! call))\<rparr>]
        | Some pid \<Rightarrow> ?ps[pid := (?ps ! pid)
            \<lparr>handlers := handlers (?ps ! pid) @ [(jpegSig, [])],
             forwarders := Suc (forwarders (?ps ! pid))\<rparr>]))"
      using SignatureResolved st True
      by (auto simp: resumeStart_def Let_def split: sum.splits option.splits)
    then show ?thesis using rej reg
      by (simp split: sum.splits option.splits)
  qed
next
  case (ProcessError pid)
  show ?thesis
  proof (cases "pid < length (processes s) \<and> errorOnce (processes s ! pid)")
    case False
    then show ?thesis using ProcessError st a by (auto simp: processError_def)
  next
    case True
    have "\<forall>p \<in> set ((processes s)[pid := (processes s ! pid)
        \<lparr>startPromise := settle (Rejected CaptureStartFailed) (startPromise (processes s ! pid)),
         errorOnce := False\<rparr>]).
        awaitingSignature p \<longrightarrow> (startPromise p = Pending) = (dataOnce p \<and> errorOnce p)"
      using a by (rule all_update) simp
    then show ?thesis using ProcessError st True by (auto simp: processError_def)
  qed
next
  case (StdoutData pid data)
  with st have sd: "stdoutData pid data s = Some s'" by simp
  from stdoutData_processes [OF inv sd] obtain hs where ps: "processes s' =
     (if pid < length (processes s)
      then (processes s)[pid :=
        (if dataOnce (processes s ! pid)
         then (processes s ! pid)\<lparr>startPromise := settle Resolved (startPromise (processes s ! pid)),
                dataOnce := False\<rparr>
         else processes s ! pid)\<lparr>handlers := hs\<rparr>]
      else processes s)" by blast
  show ?thesis
  proof (cases "pid < length (processes s)")
    case False
    then show ?thesis using ps a by simp
  next
    case True
    have "\<forall>p \<in> set ((processes s)[pid :=
        (if dataOnce (processes s ! pid)
         then (processes s ! pid)\<lparr>startPromise := settle Resolved (startPromise (processes s ! pid)),
                dataOnce := False\<rparr>
         else processes s ! pid)\<lparr>handlers := hs\<rparr>]).
        awaitingSignature p \<longrightarrow> (startPromise p = Pending) = (dataOnce p \<and> errorOnce p)"
      using a by (rule all_update_nth) simp
    then show ?thesis using ps True by simp
  qed
next
  case StopCapture
  have "\<forall>p \<in> set ((processes s)[pid := (processes s ! pid)\<lparr>killed := True\<rparr>]).
        awaitingSignature p \<longrightarrow> (startPromise p = Pending) = (dataOnce p \<and> errorOnce p)" for pid
    using a by (rule all_update_nth) simp
  then show ?thesis using StopCapture st a
    by (auto simp: stopCapture_processes split: option.splits)
next
  case CreateStream
  then show ?thesis using st a by auto
next
  case TakeImage
  then show ?thesis using st a by (auto simp: takeImage_def split: if_splits)
qed

lemma run_pending:
  "camera_inv s \<Longrightarrow> run s evs = Some s' \<Longrightarrow>
   \<forall>p \<in> set (processes s). awaitingSignature p \<longrightarrow>
      (startPromise p = Pending) = (dataOnce p \<and> errorOnce p) \<Longrightarrow>
   \<forall>p \<in> set (processes s'). awaitingSignature p \<longrightarrow>
      (startPromise p = Pending) = (dataOnce p \<and> errorOnce p)"
proof (induction evs arbitrary: s)
  case Nil
  then show ?case by simp
next
  case (Cons e evs)
  from step_inv [OF Cons.prems(1), of e] obtain s1 where s1: "step s e = Some s1" "camera_inv s1"
    by blast
  with Cons.prems(2) have r: "run s1 evs = Some s'" by simp
  from Cons.IH [OF s1(2) r step_pending [OF Cons.prems(1) s1(1) Cons.prems(3)]] show ?case .
qed

lemma resumeStart_unknown:
  assumes "getJpegSignature model = Inl err"
    and "call < length (processes s)" and "awaitingSignature (processes s ! call)"
  shows "resumeStart call model s =
     s\<lparr>processes := (processes s)[call := (processes s ! call)
        \<lparr>awaitingSignature := False,
         startPromise := settle (Rejected err) (startPromise (processes s ! call))\<rparr>]\<rparr>"
  using assms by (simp add: resumeStart_def Let_def)


section \<open>Starting a capture\<close>

text \<open>
  C2, as the claim states it, fails: \<^verbatim>\<open>startCapture\<close> tests nothing before it spawns.
  A second start without a stop in between is not rejected (its promise resolves on the
  first chunk of the second process), two processes have been spawned,
  \<^verbatim>\<open>this.childProcess\<close> names the second one, and the following stop kills only that one:
  the first process keeps running with no handle left to it.
\<close>

theorem second_start_spawns_second_process:
  "map_option childProcess (run (newCamera MJPEG)
      [StartCapture, SignatureResolved 0 ''BCM2711'', StdoutData 0 [1],
       StartCapture, SignatureResolved 1 ''BCM2711'', StdoutData 1 [2], StopCapture])
     = Some (Some 1) \<and>
   map_option (map startPromise \<circ> processes) (run (newCamera MJPEG)
      [StartCapture, SignatureResolved 0 ''BCM2711'', StdoutData 0 [1],
       StartCapture, SignatureResolved 1 ''BCM2711'', StdoutData 1 [2], StopCapture])
     = Some [Resolved, Resolved] \<and>
   map_option (map killed \<circ> processes) (run (newCamera MJPEG)
      [StartCapture, SignatureResolved 0 ''BCM2711'', StdoutData 0 [1],
       StartCapture, SignatureResolved 1 ''BCM2711'', StdoutData 1 [2], StopCapture])
     = Some [False, True]"
  by code_simp

text \<open>
  C2, as amended: \<^verbatim>\<open>startCapture\<close> has no precondition on an active session. After
  every sequence of events as many processes have been spawned as there were calls of
  \<^verbatim>\<open>startCapture\<close>, and \<^verbatim>\<open>this.childProcess\<close> names the one spawned last (none before the
  first start). A call of \<^verbatim>\<open>stopCapture\<close> in that state spawns and removes nothing, marks
  the process spawned last as killed and leaves every earlier process as it was. One more
  call of \<^verbatim>\<open>startCapture\<close> in that state spawns one more process, not killed and with a
  pending promise, keeps every earlier process as it was and overwrites the handle with
  the new process; a stop that follows it kills the new process and no earlier one.
\<close>

theorem start_always_spawns:
  "\<exists>s. run (newCamera c) evs = Some s \<and>
     length (processes s) = count_list evs StartCapture \<and>
     childProcess s = (if processes s = [] then None else Some (length (processes s) - 1)) \<and>
     length (processes (stopCapture s)) = length (processes s) \<and>
     (\<forall>pid. Suc pid < length (processes s) \<longrightarrow>
        processes (stopCapture s) ! pid = processes s ! pid) \<and>
     (\<forall>pid. Suc pid = length (processes s) \<longrightarrow>
        processes (stopCapture s) ! pid = (processes s ! pid)\<lparr>killed := True\<rparr>) \<and>
     (\<exists>p. processes (startCapture s) = processes s @ [p] \<and>
        startPromise p = Pending \<and> \<not> killed p \<and>
        childProcess (startCapture s) = Some (length (processes s)) \<and>
        processes (stopCapture (startCapture s)) = processes s @ [p\<lparr>killed := True\<rparr>])"
proof -
  from run_inv [OF newCamera_inv, of c evs] obtain s where r: "run (newCamera c) evs = Some s"
    by blast
  from run_processes_length [OF newCamera_inv r]
  have n: "length (processes s) = count_list evs StartCapture" by (simp add: newCamera_def)
  have h: "childProcess s = (if processes s = [] then None else Some (length (processes s) - 1))"
    by (rule run_childProcess [OF newCamera_inv r]) (simp add: newCamera_def)
  have l: "length (processes (stopCapture s)) = length (processes s)"
    by (simp add: stopCapture_processes split: option.split)
  have k: "processes (stopCapture s) ! pid = processes s ! pid"
    if "Suc pid < length (processes s)" for pid
    using that h by (auto simp: stopCapture_processes)
  have m: "processes (stopCapture s) ! pid = (processes s ! pid)\<lparr>killed := True\<rparr>"
    if "Suc pid = length (processes s)" for pid
  proof -
    from that have "processes s \<noteq> []" and "length (processes s) - 1 = pid" by auto
    with h have "childProcess s = Some pid" by simp
    with that show ?thesis by (simp add: stopCapture_processes)
  qed
  let ?p = "\<lparr>killed = False, startPromise = Pending, errorOnce = True, dataOnce = True,
    awaitingSignature = True, handlers = [], forwarders = 0\<rparr>"
  have "processes (startCapture s) = processes s @ [?p]"
    and "childProcess (startCapture s) = Some (length (processes s))"
    by (simp_all add: startCapture_def)
  moreover have "processes (stopCapture (startCapture s)) = processes s @ [?p\<lparr>killed := True\<rparr>]"
    by (simp add: stopCapture_processes startCapture_def)
  moreover have "startPromise ?p = Pending" "\<not> killed ?p" by simp_all
  ultimately show ?thesis using r n h l k m by blast
qed

theorem start_always_spawns_witness:
  "\<exists>s. run (newCamera MJPEG)
       [StartCapture, SignatureResolved 0 ''BCM2711'', StdoutData 0 [1], StartCapture] = Some s \<and>
     length (processes s) = 2 \<and> childProcess s = Some 1 \<and>
     processes (stopCapture s) ! 0 = processes s ! 0 \<and>
     processes (stopCapture s) ! 1 = (processes s ! 1)\<lparr>killed := True\<rparr> \<and>
     processes (stopCapture (startCapture s)) ! 1 = processes s ! 1"
proof -
  from start_always_spawns [of MJPEG
      "[StartCapture, SignatureResolved 0 ''BCM2711'', StdoutData 0 [1], StartCapture]"]
  obtain s p where r: "run (newCamera MJPEG)
       [StartCapture, SignatureResolved 0 ''BCM2711'', StdoutData 0 [1], StartCapture] = Some s"
    and n: "length (processes s) = 2" and h: "childProcess s = Some 1"
    and k: "\<forall>pid. Suc pid < length (processes s) \<longrightarrow>
        processes (stopCapture s) ! pid = processes s ! pid"
    and m: "\<forall>pid. Suc pid = length (processes s) \<longrightarrow>
        processes (stopCapture s) ! pid = (processes s ! pid)\<lparr>killed := True\<rparr>"
    and t: "processes (stopCapture (startCapture s)) = processes s @ [p\<lparr>killed := True\<rparr>]"
    by (auto split: if_splits)
  have "processes (stopCapture s) ! 0 = processes s ! 0" using k n by simp
  moreover have "processes (stopCapture s) ! 1 = (processes s ! 1)\<lparr>killed := True\<rparr>"
    using m n by simp
  moreover have "processes (stopCapture (startCapture s)) ! 1 = processes s ! 1"
    using t n by (simp add: nth_append)
  ultimately show ?thesis using r n h by blast
qed

text \<open>
  C3, as the claim states it, fails twice on a host whose model \<^verbatim>\<open>getJpegSignature\<close>
  does not list: the camera is in plain H264 mode and the start is still rejected with
  the signature error, and by then the process has been spawned (it is stored in
  \<^verbatim>\<open>this.childProcess\<close> and was not killed).
\<close>

theorem unknown_model_after_spawn_in_plain_mode:
  "map_option childProcess (run (newCamera H264)
      [StartCapture, SignatureResolved 0 ''Raspberry Pi 5 Model B'']) = Some (Some 0) \<and>
   map_option (map killed \<circ> processes) (run (newCamera H264)
      [StartCapture, SignatureResolved 0 ''Raspberry Pi 5 Model B'']) = Some [False] \<and>
   map_option (map startPromise \<circ> processes) (run (newCamera H264)
      [StartCapture, SignatureResolved 0 ''Raspberry Pi 5 Model B''])
     = Some [Rejected (UnknownSystemModel ''Raspberry Pi 5 Model B'')]"
  by code_simp

text \<open>
  C3, as amended: let \<^verbatim>\<open>getJpegSignature\<close> throw for the model of the host. In every
  encoding mode and after every sequence of events, as many processes have been spawned
  as there were calls of \<^verbatim>\<open>startCapture\<close>, the one of a suspended call among them: the
  signature is resolved only after the spawn. For every call that is still suspended at
  the \<^verbatim>\<open>await\<close>, its promise is pending exactly if neither the first stdout chunk nor the
  \<^verbatim>\<open>'error'\<close> event of its process has come yet; the throw ends the call, rejects its
  promise with that error if it is pending and leaves it as it was settled otherwise; and
  nothing else changes: every process stays as it was (none is killed),
  \<^verbatim>\<open>this.childProcess\<close> keeps the handle, and none of the listeners that follow the
  \<^verbatim>\<open>await\<close> (the data handler, the listeners for errors and for the close of stdout) is
  registered.
\<close>

theorem unknown_model_rejects_after_spawn:
  assumes "getJpegSignature model = Inl err"
  shows "\<exists>s. run (newCamera c) evs = Some s \<and>
     length (processes s) = count_list evs StartCapture \<and>
     (\<forall>call. call < length (processes s) \<and> awaitingSignature (processes s ! call) \<longrightarrow>
        (startPromise (processes s ! call) = Pending) =
          (dataOnce (processes s ! call) \<and> errorOnce (processes s ! call)) \<and>
        step s (SignatureResolved call model) =
          Some (s\<lparr>processes := (processes s)[call := (processes s ! call)
            \<lparr>awaitingSignature := False,
             startPromise :=
               (if startPromise (processes s ! call) = Pending then Rejected err
                else startPromise (processes s ! call))\<rparr>]\<rparr>))"
proof -
  from run_inv [OF newCamera_inv, of c evs] obtain s where r: "run (newCamera c) evs = Some s"
    by blast
  from run_processes_length [OF newCamera_inv r]
  have n: "length (processes s) = count_list evs StartCapture" by (simp add: newCamera_def)
  have p: "\<forall>p \<in> set (processes s). awaitingSignature p \<longrightarrow>
      (startPromise p = Pending) = (dataOnce p \<and> errorOnce p)"
    by (rule run_pending [OF newCamera_inv r]) (simp add: newCamera_def)
  have "(startPromise (processes s ! call) = Pending) =
          (dataOnce (processes s ! call) \<and> errorOnce (processes s ! call)) \<and>
        step s (SignatureResolved call model) =
          Some (s\<lparr>processes := (processes s)[call := (processes s ! call)
            \<lparr>awaitingSignature := False,
             startPromise :=
               (if startPromise (processes s ! call) = Pending then Rejected err
                else startPromise (processes s ! call))\<rparr>]\<rparr>)"
    if c: "call < length (processes s) \<and> awaitingSignature (processes s ! call)" for call
  proof -
    have "processes s ! call \<in> set (processes s)" using c by simp
    with p c have "(startPromise (processes s ! call) = Pending) =
          (dataOnce (processes s ! call) \<and> errorOnce (processes s ! call))" by blast
    moreover have "step s (SignatureResolved call model) =
          Some (s\<lparr>processes := (processes s)[call := (processes s ! call)
            \<lparr>awaitingSignature := False,
             startPromise :=
               (if startPromise (processes s ! call) = Pending then Rejected err
                else startPromise (processes s ! call))\<rparr>]\<rparr>)"
      using resumeStart_unknown [OF assms, of call s] c by (simp add: settle_def)
    ultimately show ?thesis by blast
  qed
  with r n show ?thesis by blast
qed

theorem unknown_model_rejects_after_spawn_witness:
  "getJpegSignature ''Raspberry Pi 5 Model B'' = Inl (UnknownSystemModel ''Raspberry Pi 5 Model B'') \<and>
   (\<exists>s. run (newCamera H264) [StartCapture] = Some s \<and>
      length (processes s) = 1 \<and> awaitingSignature (processes s ! 0) \<and>
      step s (SignatureResolved 0 ''Raspberry Pi 5 Model B'') =
        Some (s\<lparr>processes :=
          [\<lparr>killed = False,
            startPromise = Rejected (UnknownSystemModel ''Raspberry Pi 5 Model B''),
            errorOnce = True, dataOnce = True, awaitingSignature = False, handlers = [],
            forwarders = 0\<rparr>]\<rparr>))"
proof -
  have g: "getJpegSignature ''Raspberry Pi 5 Model B''
      = Inl (UnknownSystemModel ''Raspberry Pi 5 Model B'')"
    by (simp add: getJpegSignature_def)
  from unknown_model_rejects_after_spawn [OF g, of H264 "[StartCapture]"]
  obtain s where r: "run (newCamera H264) [StartCapture] = Some s"
    and a: "\<forall>call. call < length (processes s) \<and> awaitingSignature (processes s ! call) \<longrightarrow>
        (startPromise (processes s ! call) = Pending) =
          (dataOnce (processes s ! call) \<and> errorOnce (processes s ! call)) \<and>
        step s (SignatureResolved call ''Raspberry Pi 5 Model B'') =
          Some (s\<lparr>processes := (processes s)[call := (processes s ! call)
            \<lparr>awaitingSignature := False,
             startPromise :=
               (if startPromise (processes s ! call) = Pending
                then Rejected (UnknownSystemModel ''Raspberry Pi 5 Model B'')
                else startPromise (processes s ! call))\<rparr>]\<rparr>)"
    by blast
  have ps: "processes s = [\<lparr>killed = False, startPromise = Pending, errorOnce = True,
      dataOnce = True, awaitingSignature = True, handlers = [], forwarders = 0\<rparr>]"
    using r by (auto simp: startCapture_def newCamera_def)
  have c: "0 < length (processes s) \<and> awaitingSignature (processes s ! 0)" by (simp add: ps)
  from a [rule_format, OF c] have "step s (SignatureResolved 0 ''Raspberry Pi 5 Model B'') =
        Some (s\<lparr>processes :=
          [\<lparr>killed = False,
            startPromise = Rejected (UnknownSystemModel ''Raspberry Pi 5 Model B''),
            errorOnce = True, dataOnce = True, awaitingSignature = False, handlers = [],
            forwarders = 0\<rparr>]\<rparr>)"
    by (simp add: ps)
  with g r c show ?thesis by (simp add: ps)
qed

section \<open>Stopping a capture\<close>

text \<open>
  C9: after every sequence of operations, each consumer stream that is open (registered)
  has not been sent the end-of-stream signal; \<^verbatim>\<open>stopCapture\<close> pushes it to each of them
  and clears the registry, whether or not any frame was ever emitted; a second stop
  pushes nothing; and whatever operations follow the stop, further stops included, each
  of these streams has been sent the signal exactly once.
\<close>

theorem stop_ends_each_open_stream_once:
  "\<exists>s. run (newCamera c) evs = Some s \<and>
     (\<forall>sid \<in> set (streams s).
        count_list (readables s ! sid) EOF = 0 \<and>
        readables (stopCapture s) ! sid = readables s ! sid @ [EOF]) \<and>
     streams (stopCapture s) = [] \<and>
     readables (stopCapture (stopCapture s)) = readables (stopCapture s) \<and>
     (\<exists>s'. run (stopCapture s) evs' = Some s' \<and>
        (\<forall>sid \<in> set (streams s). count_list (readables s' ! sid) EOF = 1))"
proof -
  from run_inv [OF newCamera_inv, of c evs]
  obtain s where r: "run (newCamera c) evs = Some s" and inv: "camera_inv s" by blast
  have eof: "eof_inv s" using run_eof_inv [OF newCamera_inv newCamera_eof_inv r] .
  let ?s1 = "stopCapture s"
  have inv1: "camera_inv ?s1" using inv by (rule stopCapture_inv)
  have eof1: "eof_inv ?s1" using inv eof by (rule stopCapture_eof_inv)
  from run_inv [OF inv1, of evs']
  obtain s' where r': "run ?s1 evs' = Some s'" and inv': "camera_inv s'" by blast
  have eof': "eof_inv s'" using run_eof_inv [OF inv1 eof1 r'] .
  have valid: "sid < length (readables s)" if "sid \<in> set (streams s)" for sid
    using inv that by (simp add: camera_inv_def)
  have open_streams: "count_list (readables s ! sid) EOF = 0 \<and>
      readables ?s1 ! sid = readables s ! sid @ [EOF]" if "sid \<in> set (streams s)" for sid
  proof -
    have "EOF \<notin> set (readables s ! sid)"
      using eof [unfolded eof_inv_def, rule_format, OF valid [OF that]] that by simp
    then show ?thesis using stopCapture_readables [OF inv valid [OF that]] that
      by (simp add: count_list_0_iff)
  qed
  have once: "count_list (readables s' ! sid) EOF = 1" if "sid \<in> set (streams s)" for sid
  proof -
    have v1: "sid < length (readables ?s1)" using valid [OF that] by simp
    from run_prefix [OF inv1 r' v1]
    have v': "sid < length (readables s')"
      and p: "prefix (readables ?s1 ! sid) (readables s' ! sid)" by simp_all
    have "EOF \<in> set (readables ?s1 ! sid)" using open_streams [OF that] by simp
    with p have "EOF \<in> set (readables s' ! sid)" using set_mono_prefix by blast
    with eof' [unfolded eof_inv_def, rule_format, OF v']
    obtain xs where "readables s' ! sid = xs @ [EOF]" "EOF \<notin> set xs"
      by (auto split: if_splits)
    then show ?thesis by (simp add: count_single_EOF)
  qed
  show ?thesis using r r' open_streams once stopCapture_twice by auto
qed

theorem stop_ends_each_open_stream_once_witness:
  "\<exists>s. run (newCamera H264) [CreateStream, StartCapture, CreateStream] = Some s \<and>
     streams s = [0, 1] \<and>
     readables (stopCapture s) = [[EOF], [EOF]] \<and>
     (\<exists>s'. run (stopCapture s) [CreateStream, StopCapture, StopCapture] = Some s' \<and>
        count_list (readables s' ! 0) EOF = 1 \<and> count_list (readables s' ! 1) EOF = 1)"
proof -
  from stop_ends_each_open_stream_once [of H264 "[CreateStream, StartCapture, CreateStream]"
      "[CreateStream, StopCapture, StopCapture]"]
  obtain s s' where r: "run (newCamera H264) [CreateStream, StartCapture, CreateStream] = Some s"
    and o: "\<forall>sid \<in> set (streams s). count_list (readables s ! sid) EOF = 0 \<and>
        readables (stopCapture s) ! sid = readables s ! sid @ [EOF]"
    and r': "run (stopCapture s) [CreateStream, StopCapture, StopCapture] = Some s'"
    and e: "\<forall>sid \<in> set (streams s). count_list (readables s' ! sid) EOF = 1"
    by blast
  have s: "streams s = [0, 1]" "readables s = [[], []]"
    using r by (auto simp: createStream_def startCapture_def newCamera_def)
  have "length (readables (stopCapture s)) = 2" using s by simp
  moreover have "readables (stopCapture s) ! 0 = [EOF]" "readables (stopCapture s) ! 1 = [EOF]"
    using o s by simp_all
  ultimately have "readables (stopCapture s) = [[EOF], [EOF]]"
    by (simp add: list_eq_iff_nth_eq less_Suc_eq numeral_2_eq_2)
  with r r' e s show ?thesis by simp
qed

section \<open>The fan-out to the consumer streams\<close>

text \<open>
  C7: take the camera after any sequence of events, with the streams registered then,
  and register one more stream with \<^verbatim>\<open>createStream\<close>. Over any further events without a
  stop, every chunk dispatched is appended unmodified, in the order of dispatch, to each
  of the streams that were registered, and the new stream holds exactly the chunks
  dispatched since its registration: none of the chunks dispatched before.
\<close>

theorem fan_out_after_registration:
  assumes "StopCapture \<notin> set evs"
  shows "\<exists>s s'. run (newCamera c) evs0 = Some s \<and>
     run (snd (createStream s)) evs = Some s' \<and>
     readables s' ! fst (createStream s) = map Chunk (dispatched (snd (createStream s)) evs) \<and>
     (\<forall>t \<in> set (streams s).
        readables s' ! t = readables s ! t @ map Chunk (dispatched (snd (createStream s)) evs))"
proof -
  from run_inv [OF newCamera_inv, of c evs0]
  obtain s where r: "run (newCamera c) evs0 = Some s" and inv: "camera_inv s" by blast
  let ?s1 = "snd (createStream s)"
  have inv1: "camera_inv ?s1" using inv by (rule createStream_inv)
  from run_dispatched [OF inv1 assms]
  obtain s' where r': "run ?s1 evs = Some s'"
    and d: "\<forall>t \<in> set (streams ?s1).
      readables s' ! t = readables ?s1 ! t @ map Chunk (dispatched ?s1 evs)" by blast
  have "readables s' ! fst (createStream s) = map Chunk (dispatched ?s1 evs)"
    using d by simp
  moreover have "readables s' ! t = readables s ! t @ map Chunk (dispatched ?s1 evs)"
    if "t \<in> set (streams s)" for t
  proof -
    have "t < length (readables s)" using inv that by (simp add: camera_inv_def)
    then show ?thesis using d that by (simp add: nth_append)
  qed
  ultimately show ?thesis using r r' by blast
qed

theorem fan_out_after_registration_witness:
  "StopCapture \<notin> set [StdoutData 0 [2], CreateStream, StdoutData 0 [3]] \<and>
   (\<exists>s s'. run (newCamera H264)
        [CreateStream, StartCapture, SignatureResolved 0 ''BCM2711'', StdoutData 0 [1]] = Some s \<and>
      run (snd (createStream s)) [StdoutData 0 [2], CreateStream, StdoutData 0 [3]] = Some s' \<and>
      readables s' ! 0 = [Chunk [1], Chunk [2], Chunk [3]] \<and>
      readables s' ! 1 = [Chunk [2], Chunk [3]])"
proof -
  let ?S = "\<lparr>codec = H264, childProcess = Some 0, streams = [0],
     processes = [\<lparr>killed = False, startPromise = Resolved, errorOnce = True,
       dataOnce = False, awaitingSignature = False, handlers = [(jpegSignature, [])], forwarders = 1\<rparr>],
     readables = [[Chunk [1]]], frames = [], frameOnce = [], images = []\<rparr>"
  have n: "StopCapture \<notin> set [StdoutData 0 [2], CreateStream, StdoutData 0 [3]]" by simp
  from fan_out_after_registration [OF n, of H264
      "[CreateStream, StartCapture, SignatureResolved 0 ''BCM2711'', StdoutData 0 [1]]"]
  obtain s s' where r: "run (newCamera H264)
        [CreateStream, StartCapture, SignatureResolved 0 ''BCM2711'', StdoutData 0 [1]] = Some s"
    and r': "run (snd (createStream s)) [StdoutData 0 [2], CreateStream, StdoutData 0 [3]] = Some s'"
    and new: "readables s' ! fst (createStream s) =
      map Chunk (dispatched (snd (createStream s)) [StdoutData 0 [2], CreateStream, StdoutData 0 [3]])"
    and old: "\<forall>t \<in> set (streams s). readables s' ! t = readables s ! t @
      map Chunk (dispatched (snd (createStream s)) [StdoutData 0 [2], CreateStream, StdoutData 0 [3]])"
    by blast
  have s: "s = ?S" using r by (simp only: example_plain_run option.inject)
  have d: "dispatched (snd (createStream s)) [StdoutData 0 [2], CreateStream, StdoutData 0 [3]]
      = [[2], [3]]"
    by (simp only: s example_plain_dispatched)
  have "readables s' ! 1 = [Chunk [2], Chunk [3]]"
    using new unfolding d by (simp add: s)
  moreover have "readables s' ! 0 = [Chunk [1], Chunk [2], Chunk [3]]"
    using old unfolding d by (simp add: s)
  ultimately show ?thesis using n r r' by blast
qed

section \<open>Plain mode\<close>




section \<open>Taking a single image\<close>

text \<open>
  C8: on a camera in any reachable state, \<^verbatim>\<open>takeImage\<close> throws at once when the codec is
  not MJPEG, and nothing is registered; when the codec is MJPEG it returns a pending
  promise, and whatever events follow, the promise stays pending and its listener
  registered as long as no frame is emitted, and from the first frame emitted after the
  call on it is resolved with exactly that frame and its listener is gone. Frames
  emitted before the call play no part.
\<close>

theorem takeImage_next_frame:
  "\<exists>s. run (newCamera c) evs0 = Some s \<and>
     (if c \<noteq> MJPEG then takeImage s = Inl CodecNotMJPEG
      else (\<exists>s1 s2 new. takeImage s = Inr (length (images s), s1) \<and>
              frames s1 = frames s \<and> run s1 evs = Some s2 \<and>
              frames s2 = frames s @ new \<and>
              images s2 ! length (images s) = (case new of [] \<Rightarrow> None | img # _ \<Rightarrow> Some img) \<and>
              (length (images s) \<in> set (frameOnce s2)) = (new = [])))"
proof -
  from run_inv [OF newCamera_inv, of c evs0]
  obtain s where r: "run (newCamera c) evs0 = Some s" and inv: "camera_inv s" by blast
  have c: "codec s = c" using run_codec [OF newCamera_inv r] by (simp add: newCamera_def)
  show ?thesis
  proof (cases "c = MJPEG")
    case False
    then have "takeImage s = Inl CodecNotMJPEG" using c by (simp add: takeImage_def)
    with r False show ?thesis by auto
  next
    case True
    let ?k = "length (images s)"
    let ?s1 = "s\<lparr>images := images s @ [None], frameOnce := frameOnce s @ [?k]\<rparr>"
    have t: "takeImage s = Inr (?k, ?s1)" using True c by (simp add: takeImage_def)
    have inv1: "camera_inv ?s1" using inv t by (rule takeImage_inv)
    from run_inv [OF inv1, of evs] obtain s2 where r2: "run ?s1 evs = Some s2" by blast
    have "?k < length (images ?s1)" by simp
    from run_images [OF inv1 r2 this]
    obtain new where f: "frames s2 = frames ?s1 @ new"
      and o: "?k \<in> set (frameOnce s2) \<longleftrightarrow> ?k \<in> set (frameOnce ?s1) \<and> new = []"
      and i: "images s2 ! ?k =
        (if new \<noteq> [] \<and> ?k \<in> set (frameOnce ?s1) then Some (hd new) else images ?s1 ! ?k)"
      by blast
    have "images s2 ! ?k = (case new of [] \<Rightarrow> None | img # _ \<Rightarrow> Some img)"
      using i by (cases new) simp_all
    moreover have "(?k \<in> set (frameOnce s2)) = (new = [])" using o by simp
    moreover have "frames s2 = frames s @ new" using f by simp
    moreover have "frames ?s1 = frames s" by simp
    ultimately show ?thesis using r t r2 True by auto
  qed
qed

theorem takeImage_next_frame_witness:
  "\<exists>s s1 s2. run (newCamera MJPEG)
       [StartCapture, SignatureResolved 0 ''BCM2711'',
        StdoutData 0 (jpegSignature @ [1] @ jpegSignature)] = Some s \<and>
     frames s = [jpegSignature @ [1]] \<and>
     takeImage s = Inr (0, s1) \<and>
     run s1 [StdoutData 0 ([2] @ jpegSignature), TakeImage, StdoutData 0 ([3] @ jpegSignature)]
       = Some s2 \<and>
     frames s2 = [jpegSignature @ [1], jpegSignature @ [2], jpegSignature @ [3]] \<and>
     images s2 ! 0 = Some (jpegSignature @ [2]) \<and>
     0 \<notin> set (frameOnce s2)"
proof -
  let ?S = "\<lparr>codec = MJPEG, childProcess = Some 0, streams = [],
     processes = [\<lparr>killed = False, startPromise = Resolved, errorOnce = True,
       dataOnce = False, awaitingSignature = False,
       handlers = [(jpegSignature, jpegSignature)],
       forwarders = 1\<rparr>],
     readables = [], frames = [jpegSignature @ [1]], frameOnce = [], images = []\<rparr>"
  from takeImage_next_frame [of MJPEG
      "[StartCapture, SignatureResolved 0 ''BCM2711'',
        StdoutData 0 (jpegSignature @ [1] @ jpegSignature)]"
      "[StdoutData 0 ([2] @ jpegSignature), TakeImage, StdoutData 0 ([3] @ jpegSignature)]"]
  obtain s s1 s2 new where r: "run (newCamera MJPEG)
       [StartCapture, SignatureResolved 0 ''BCM2711'',
        StdoutData 0 (jpegSignature @ [1] @ jpegSignature)] = Some s"
    and t: "takeImage s = Inr (length (images s), s1)"
    and r2: "run s1 [StdoutData 0 ([2] @ jpegSignature), TakeImage,
        StdoutData 0 ([3] @ jpegSignature)] = Some s2"
    and f: "frames s2 = frames s @ new"
    and i: "images s2 ! length (images s) = (case new of [] \<Rightarrow> None | img # _ \<Rightarrow> Some img)"
    and o: "(length (images s) \<in> set (frameOnce s2)) = (new = [])"
    by auto
  have s: "s = ?S" using r by (simp only: example_mjpeg_run option.inject)
  have s1: "s1 = \<lparr>codec = MJPEG, childProcess = Some 0, streams = [],
     processes = [\<lparr>killed = False, startPromise = Resolved, errorOnce = True,
       dataOnce = False, awaitingSignature = False,
       handlers = [(jpegSignature, jpegSignature)],
       forwarders = 1\<rparr>],
     readables = [], frames = [jpegSignature @ [1]], frameOnce = [0], images = [None]\<rparr>"
    using t by (simp add: s takeImage_def)
  from r2 [unfolded s1 example_mjpeg_after]
  have f2: "frames s2 = [jpegSignature @ [1], jpegSignature @ [2], jpegSignature @ [3]]"
    by auto
  then have new: "new = [jpegSignature @ [2], jpegSignature @ [3]]" using f by (simp add: s)
  have "images s2 ! 0 = Some (jpegSignature @ [2])" using i by (simp add: new s)
  moreover have "0 \<notin> set (frameOnce s2)" using o by (simp add: new s)
  moreover have "frames s = [jpegSignature @ [1]]" by (simp add: s)
  moreover have "takeImage s = Inr (0, s1)" using t by (simp add: s)
  ultimately show ?thesis using r r2 f2 by blast
qed
end
